theory Spec2Isabelle
  imports Complex_Main "HOL-Library.Multiset"
begin

section \<open>Listings\<close>

text \<open>
  A listing is the object literal that both source adapters push onto \<open>listingData\<close>:
  \<open>{name, price, condition, sleeve_condition, link, image}\<close>. The record is polymorphic
  in the price so that the storefront adapter, whose \<open>parseFloat(...) * rate\<close> may be
  \<open>NaN\<close>, can be modelled with JavaScript numbers, while the merge and rank functions
  work on listings whose price is a finite number. A finite double is a rational, and on
  finite doubles both \<open>a < b\<close> and the sign of \<open>a - b\<close> agree with the order of the
  rationals, so these prices are \<open>rat\<close>.
\<close>

record 'p listing =
  name :: string
  price :: 'p
  condition :: string
  sleeve_condition :: string
  link :: string
  image :: "string option"

section \<open>Merge and rank: \<open>sortByPrice\<close>, \<open>removeDuplicates\<close>, \<open>trimResults\<close>\<close>

text \<open>
  \<open>accumulator.indexOf(existingItem)\<close>: the first index holding the item, \<open>-1\<close> (here
  \<open>None\<close>) when there is none.
\<close>

fun indexOf :: "'a \<Rightarrow> 'a list \<Rightarrow> nat option" where
  "indexOf x [] = None"
| "indexOf x (y # ys) = (if y = x then Some 0 else map_option Suc (indexOf x ys))"

text \<open>
  The callback of the \<open>reduce\<close> in \<open>removeDuplicates\<close>. An assignment at index \<open>-1\<close>
  would leave the array elements as they are.
\<close>

definition dedupe_step :: "rat listing list \<Rightarrow> rat listing \<Rightarrow> rat listing list" where
  "dedupe_step accumulator current =
     (case find (\<lambda>item. name item = name current) accumulator of
        Some existingItem \<Rightarrow>
          (if price current < price existingItem
           then (case indexOf existingItem accumulator of
                   Some index \<Rightarrow> accumulator[index := current]
                 | None \<Rightarrow> accumulator)
           else accumulator)
      | None \<Rightarrow> accumulator @ [current])"

definition removeDuplicates :: "rat listing list \<Rightarrow> rat listing list" where
  "removeDuplicates listingData = foldl dedupe_step [] listingData"

text \<open>
  \<open>listingData.sort((a, b) => a.price - b.price)\<close>: \<open>Array.prototype.sort\<close> is stable,
  and so is \<open>sort_key\<close>.
\<close>

definition sortByPrice :: "rat listing list \<Rightarrow> rat listing list" where
  "sortByPrice listingData = sort_key price listingData"

text \<open>\<open>uniqueListings.slice(0, 3)\<close>\<close>

definition trimResults :: "'a list \<Rightarrow> 'a list" where
  "trimResults uniqueListings = take 3 uniqueListings"

text \<open>
  What \<open>main\<close> returns as \<open>results\<close> for an accumulator \<open>listingData\<close>: it calls
  \<open>sortByPrice\<close>, then \<open>removeDuplicates\<close>, then \<open>trimResults\<close>.
\<close>

definition rankedResults :: "rat listing list \<Rightarrow> rat listing list" where
  "rankedResults listingData = trimResults (removeDuplicates (sortByPrice listingData))"

text \<open>
  The specification's reading of the same stage, in its own words: \<open>rank\<close> is a stable
  sort ascending by price of which at most the first three entries are returned, and the
  final list is the rank of the deduplicated listings.
\<close>

definition spec_rank :: "rat listing list \<Rightarrow> rat listing list" where
  "spec_rank listings = take 3 (sort_key price listings)"

definition spec_dedupe_then_rank :: "rat listing list \<Rightarrow> rat listing list" where
  "spec_dedupe_then_rank listings = spec_rank (removeDuplicates listings)"

text \<open>The names of a list in the order of their first occurrence.\<close>

definition first_occurrences :: "'a list \<Rightarrow> 'a list" where
  "first_occurrences xs = rev (remdups (rev xs))"

text \<open>
  \<open>first_cheapest a xs\<close>: among the records of \<open>xs\<close> that carry the name of \<open>a\<close>, the
  record \<open>a\<close> occurs, every record before its first occurrence is strictly dearer and
  every later one is at least as dear: \<open>a\<close> is the first encountered of the cheapest
  records of its name.
\<close>

definition first_cheapest :: "rat listing \<Rightarrow> rat listing list \<Rightarrow> bool" where
  "first_cheapest a xs =
     (let same = filter (\<lambda>x. name x = name a) xs in
      case indexOf a same of
        None \<Rightarrow> False
      | Some k \<Rightarrow> (\<forall>y \<in> set (take k same). price a < price y)
                 \<and> (\<forall>z \<in> set (drop (Suc k) same). price a \<le> price z))"

text \<open>Sample listings for the concrete scenarios.\<close>

definition sample :: "string \<Rightarrow> rat \<Rightarrow> string \<Rightarrow> rat listing" where
  "sample n p l = \<lparr>name = n, price = p, condition = ''VG+'', sleeve_condition = ''VG'',
     link = l, image = None\<rparr>"

section \<open>The retrying fetcher: \<open>fetchWithRetry\<close>\<close>

text \<open>
  What is thrown in the program: the rejection of \<open>fetch\<close> (a transport failure), the
  \<open>Error("HTTP error! status: ...")\<close> that \<open>fetchWithRetry\<close> throws itself, and the
  \<open>TypeError\<close> of a property access on \<open>null\<close> or \<open>undefined\<close>.
\<close>

datatype error = FetchRejected string | HttpError nat | TypeError string

text \<open>
  The body of a listing response as \<open>fetchMarketplaceListingData\<close> reads it: the throttling
  message, a document from which the listing literal is built (the literal is the
  argument), or anything else (not JSON, or a field of the literal missing), which ends in
  the \<open>catch\<close> of the promise chain.
\<close>

datatype body = Throttled | ListingJson "rat listing" | Unusable

text \<open>
  A response: its status, the value of
  \<open>parseInt(headers.get('X-Discogs-Ratelimit-Remaining'), 10)\<close>, an integer or \<open>NaN\<close>
  (\<open>None\<close>), and its body.
\<close>

record response =
  status :: nat
  ratelimit_remaining :: "int option"
  body :: body

text \<open>One call of \<open>fetch\<close> either rejects or resolves to a response.\<close>

datatype fetch_outcome = Rejected string | Responded response

text \<open>\<open>response.ok\<close>: the status is in the range 200 to 299.\<close>

definition ok :: "response \<Rightarrow> bool" where
  "ok r = (200 \<le> status r \<and> status r \<le> 299)"

text \<open>
  The \<open>try\<close> block of \<open>fetchWithRetry\<close>: \<open>await fetch(url, options)\<close>, then the throw on
  \<open>!response.ok\<close>.
\<close>

definition attempt_fetch :: "fetch_outcome \<Rightarrow> error + response" where
  "attempt_fetch outcome =
     (case outcome of
        Rejected message \<Rightarrow> Inl (FetchRejected message)
      | Responded response \<Rightarrow>
          if \<not> ok response then Inl (HttpError (status response)) else Inr response)"

text \<open>What the function does to the outside: a call of \<open>fetch\<close> (with the attempt number) and
  a wait of so many milliseconds.\<close>

datatype effect = Call nat | Wait nat

text \<open>
  The \<open>for\<close> loop of \<open>fetchWithRetry\<close> from \<open>attempt\<close> on. \<open>remote k\<close> is what the
  \<open>k\<close>-th call of \<open>fetch\<close> for this request meets. The result is the returned response
  (\<open>Inr None\<close> for the \<open>undefined\<close> that falls out of a loop that never runs) or the
  thrown error, together with the effects in order.
\<close>

function fetchWithRetry_from ::
  "(nat \<Rightarrow> fetch_outcome) \<Rightarrow> nat \<Rightarrow> nat \<Rightarrow> nat \<Rightarrow> (error + response option) \<times> effect list"
where
  "fetchWithRetry_from remote retries delay attempt =
     (if attempt < retries then
        (case attempt_fetch (remote attempt) of
           Inr response \<Rightarrow> (Inr (Some response), [Call attempt])
         | Inl error \<Rightarrow>
             (if attempt < retries - 1
              then (case fetchWithRetry_from remote retries delay (attempt + 1) of
                      (result, effects) \<Rightarrow> (result, Call attempt # Wait delay # effects))
              else (Inl error, [Call attempt])))
      else (Inr None, []))"
  by pat_completeness auto
termination
  by (relation "measure (\<lambda>(remote, retries, delay, attempt). retries - attempt)") auto

declare fetchWithRetry_from.simps [simp del]

definition fetchWithRetry ::
  "(nat \<Rightarrow> fetch_outcome) \<Rightarrow> nat \<Rightarrow> nat \<Rightarrow> (error + response option) \<times> effect list"
where
  "fetchWithRetry remote retries delay = fetchWithRetry_from remote retries delay 0"

text \<open>An attempt fails when \<open>fetch\<close> rejects or the status is not 2xx.\<close>

definition failed :: "fetch_outcome \<Rightarrow> bool" where
  "failed outcome = (case outcome of Rejected message \<Rightarrow> True | Responded r \<Rightarrow> \<not> ok r)"

text \<open>The error that a failed attempt leaves in the \<open>catch\<close> block.\<close>

definition thrown :: "fetch_outcome \<Rightarrow> error" where
  "thrown outcome = (case attempt_fetch outcome of Inl e \<Rightarrow> e | Inr r \<Rightarrow> HttpError (status r))"

text \<open>Remotes for the concrete scenarios: one that fails twice and then answers 200, one
  that always answers 500.\<close>

definition plain_response :: "nat \<Rightarrow> response" where
  "plain_response code = \<lparr>status = code, ratelimit_remaining = Some 60, body = Unusable\<rparr>"

definition flaky_remote :: "nat \<Rightarrow> fetch_outcome" where
  "flaky_remote k =
     (if k = 0 then Rejected ''socket hang up''
      else if k = 1 then Responded (plain_response 503)
      else Responded (plain_response 200))"

definition dead_remote :: "nat \<Rightarrow> fetch_outcome" where
  "dead_remote k = Responded (plain_response 500)"

definition calls :: "effect list \<Rightarrow> nat" where
  "calls effects = length (filter (\<lambda>e. case e of Call k \<Rightarrow> True | Wait ms \<Rightarrow> False) effects)"

section \<open>The rate-budgeted batch fetcher: \<open>fetchMarketplaceListingData\<close>\<close>

type_synonym ident = string

text \<open>
  JavaScript numbers that are integers or \<open>NaN\<close> (\<open>None\<close>): \<open>Math.min\<close>, \<open>+\<close>, and
  the array operations \<open>a[i]\<close> and \<open>a.slice(start, end)\<close> on them. An index outside the
  array reads \<open>undefined\<close> (\<open>None\<close>); \<open>slice\<close> counts a negative bound from the end and
  takes \<open>NaN\<close> as 0.
\<close>

definition js_min :: "int option \<Rightarrow> int \<Rightarrow> int option" where
  "js_min a b = (case a of None \<Rightarrow> None | Some x \<Rightarrow> Some (min x b))"

definition js_add :: "int option \<Rightarrow> int option \<Rightarrow> int option" where
  "js_add a b = (case (a, b) of (Some x, Some y) \<Rightarrow> Some (x + y) | _ \<Rightarrow> None)"

definition js_index :: "'a list \<Rightarrow> int \<Rightarrow> 'a option" where
  "js_index xs i = (if 0 \<le> i \<and> i < int (length xs) then Some (xs ! nat i) else None)"

definition js_slice_bound :: "nat \<Rightarrow> int \<Rightarrow> nat" where
  "js_slice_bound len rel = (if rel < 0 then nat (max (int len + rel) 0) else min (nat rel) len)"

definition js_slice :: "'a list \<Rightarrow> int \<Rightarrow> int option \<Rightarrow> 'a list" where
  "js_slice xs start finish =
     (let k = js_slice_bound (length xs) start;
          final = js_slice_bound (length xs) (case finish of None \<Rightarrow> 0 | Some e \<Rightarrow> e)
      in take (final - k) (drop k xs))"

text \<open>
  The network as the batch fetcher meets it: \<open>remote w s k\<close> is the outcome of the \<open>k\<close>-th
  call of \<open>fetch\<close> made by request \<open>s\<close> of wave \<open>w\<close>, where request 0 is the probe and request
  \<open>j + 1\<close> is the \<open>j\<close>-th element of the batch. The requests of a batch run concurrently;
  indexing the outcomes by request makes the model independent of their interleaving.
\<close>

type_synonym remote = "nat \<Rightarrow> nat \<Rightarrow> nat \<Rightarrow> fetch_outcome"

text \<open>
  One element of the batch: \<open>fetchWithRetry(...).then(response => response.json())
  .then(data => {...}).catch(...)\<close>. It yields the listings it pushes (one or none) and its
  effects; it never rejects.
\<close>

definition fetchListing :: "(nat \<Rightarrow> fetch_outcome) \<Rightarrow> rat listing list \<times> effect list" where
  "fetchListing r =
     (case fetchWithRetry r 3 1000 of
        (Inr (Some response), effects) \<Rightarrow>
          (case body response of ListingJson l \<Rightarrow> ([l], effects) | _ \<Rightarrow> ([], effects))
      | (_, effects) \<Rightarrow> ([], effects))"

text \<open>The record of one wave, that is of one run of the loop body.\<close>

record wave =
  wave_cursor :: int
  probe_id :: "ident option"
  probe_effects :: "effect list"
  rateLimitRemaining :: "int option"
  batchSize :: "int option"
  batch :: "(ident \<times> effect list) list"
  cooldown :: bool

datatype wave_result = ProbeThrew error "effect list" | WaveDone wave "rat listing list"

text \<open>
  The loop body up to \<open>await Promise.all(batch)\<close>, at cursor \<open>i\<close>. The listings are pushed
  as the requests complete; the model lists them in the order of the slice.
\<close>

definition fetchWave :: "remote \<Rightarrow> ident list \<Rightarrow> nat \<Rightarrow> int \<Rightarrow> wave_result" where
  "fetchWave remote marketplaceIDs w i =
     (case fetchWithRetry (remote w 0) 3 1000 of
        (Inl error, effects) \<Rightarrow> ProbeThrew error effects
      | (Inr None, effects) \<Rightarrow> ProbeThrew (TypeError ''response is undefined'') effects
      | (Inr (Some response), effects) \<Rightarrow>
          (let remaining = ratelimit_remaining response;
               size = js_min remaining 60;
               slice = js_slice marketplaceIDs i (js_add (Some i) size);
               fetched = map (\<lambda>(j, ident). (ident, fetchListing (remote w (Suc j))))
                             (enumerate 0 slice)
           in WaveDone
                \<lparr>wave_cursor = i, probe_id = js_index marketplaceIDs i, probe_effects = effects,
                 rateLimitRemaining = remaining, batchSize = size,
                 batch = map (\<lambda>(ident, listings, fx). (ident, fx)) fetched,
                 cooldown = False\<rparr>
                (concat (map (\<lambda>(ident, listings, fx). listings) fetched))))"

text \<open>
  The variables of the loop: the cursor \<open>i\<close> and \<open>totalRequestsMade\<close> (both become \<open>NaN\<close>
  when the header is not a number), the listings pushed so far, and the waves run so far.
\<close>

record fetch_state =
  cursor :: "int option"
  totalRequestsMade :: "int option"
  pushed :: "rat listing list"
  waves :: "wave list"

datatype fetch_end = Completed | ProbeFailed error "effect list"

text \<open>
  The \<open>for\<close> loop. \<open>i < marketplaceIDs.length\<close> is false for \<open>NaN\<close>. The loop need not
  end, so the function is partial: \<open>None\<close> is the run that never returns.
\<close>

partial_function (option) fetchLoop ::
  "remote \<Rightarrow> ident list \<Rightarrow> nat \<Rightarrow> fetch_state \<Rightarrow> (fetch_end \<times> fetch_state) option"
where
  "fetchLoop remote marketplaceIDs w s =
     (case cursor s of
        None \<Rightarrow> Some (Completed, s)
      | Some i \<Rightarrow>
          if i < int (length marketplaceIDs) then
            (case fetchWave remote marketplaceIDs w i of
               ProbeThrew error effects \<Rightarrow> Some (ProbeFailed error effects, s)
             | WaveDone wv listings \<Rightarrow>
                 (let i' = js_add (Some i) (batchSize wv);
                      again = (case i' of None \<Rightarrow> False
                               | Some n \<Rightarrow> n < int (length marketplaceIDs))
                  in fetchLoop remote marketplaceIDs (Suc w)
                       \<lparr>cursor = i',
                        totalRequestsMade = js_add (totalRequestsMade s) (batchSize wv),
                        pushed = pushed s @ listings,
                        waves = waves s @ [wv\<lparr>cooldown := again\<rparr>]\<rparr>))
          else Some (Completed, s))"

declare fetchLoop.simps [code]

definition fetch_start :: fetch_state where
  "fetch_start = \<lparr>cursor = Some 0, totalRequestsMade = Some 0, pushed = [], waves = []\<rparr>"

definition fetchMarketplaceListingData ::
  "remote \<Rightarrow> ident list \<Rightarrow> (fetch_end \<times> fetch_state) option" where
  "fetchMarketplaceListingData remote marketplaceIDs =
     fetchLoop remote marketplaceIDs 0 fetch_start"

text \<open>The calls of \<open>fetch\<close> made in a wave, and the identifiers its batch asks for.\<close>

definition wave_calls :: "wave \<Rightarrow> nat" where
  "wave_calls wv = calls (probe_effects wv) + sum_list (map (\<lambda>(ident, fx). calls fx) (batch wv))"

definition wave_ids :: "wave \<Rightarrow> ident list" where
  "wave_ids wv = map fst (batch wv)"

text \<open>
  What the probe of wave \<open>w\<close> reports: \<open>Some\<close> of the parsed header when one of its three
  attempts succeeds, \<open>None\<close> when it throws.
\<close>

definition probe_budget :: "remote \<Rightarrow> nat \<Rightarrow> int option option" where
  "probe_budget remote w =
     (case fst (fetchWithRetry (remote w 0) 3 1000) of
        Inr (Some response) \<Rightarrow> Some (ratelimit_remaining response)
      | _ \<Rightarrow> None)"

text \<open>Remotes for the concrete scenarios: every call answers 200 with the given budget.\<close>

definition steady_remote :: "int \<Rightarrow> remote" where
  "steady_remote budget w s k =
     Responded \<lparr>status = 200, ratelimit_remaining = Some budget,
                body = ListingJson (sample ''Listing'' 10 ''/sell/item'')\<rparr>"

section \<open>The storefront adapter: \<open>fetchBandcampAlbumDetails\<close>\<close>

text \<open>
  The price text is a JavaScript string, a sequence of UTF-16 code units; the currency
  symbols the function looks for are single code units.
\<close>

type_synonym utf16 = "nat list"

definition dollar :: nat where "dollar = 36"
definition euro :: nat where "euro = 8364"
definition pound :: nat where "pound = 163"

text \<open>
  A JavaScript number that is a finite value or \<open>NaN\<close>. Products are taken exactly: the
  rounding of double arithmetic is not modelled.
\<close>

datatype jsnum = NaN | Num rat

definition js_times :: "jsnum \<Rightarrow> jsnum \<Rightarrow> jsnum" where
  "js_times a b = (case (a, b) of (Num x, Num y) \<Rightarrow> Num (x * y) | _ \<Rightarrow> NaN)"

text \<open>An entry of the wishlist: \<open>{title, artist, link}\<close>.\<close>

record album =
  title :: string
  artist :: string
  album_link :: string

text \<open>
  What the function reads off the album page: whether \<open>h4.notable\<close> contains
  \<open>Sold Out\<close>, the trimmed text of the price element, and the \<open>src\<close> of the cover image.
\<close>

record page =
  sold_out :: bool
  priceText :: utf16
  imageUrl :: "string option"

text \<open>
  \<open>fetchBandcampAlbumDetails(album)\<close>. The library function \<open>parseFloat\<close> is a
  parameter. \<open>page_fetch\<close> is the outcome of fetching and loading the album page, whose
  failure rejects the call. \<open>rate_lookup base\<close> is the outcome of the currency request
  for the base currency: \<open>Some\<close> of \<open>data.data["AUD"]["value"]\<close>, or \<open>None\<close> when the
  chain ends in its \<open>catch\<close>, which leaves \<open>rate\<close> at its initial 10000. The result is
  \<open>null\<close> (\<open>None\<close>) for a sold-out album and the listing literal otherwise.
\<close>

definition fetchBandcampAlbumDetails ::
  "(utf16 \<Rightarrow> jsnum) \<Rightarrow> album \<Rightarrow> error + page \<Rightarrow> (string \<Rightarrow> jsnum option)
     \<Rightarrow> error + jsnum listing option"
where
  "fetchBandcampAlbumDetails parseFloat album page_fetch rate_lookup =
     (case page_fetch of
        Inl e \<Rightarrow> Inl e
      | Inr pg \<Rightarrow>
          if sold_out pg then Inr None
          else
            (let base_currency =
                   (case priceText pg of
                      [] \<Rightarrow> ''''
                    | c # cs \<Rightarrow>
                        if c = dollar then ''USD''
                        else if c = euro then ''EUR''
                        else if c = pound then ''GBP''
                        else '''');
                 rate = (case rate_lookup base_currency of Some r \<Rightarrow> r | None \<Rightarrow> Num 10000);
                 price = js_times (parseFloat (drop 1 (priceText pg))) rate
             in Inr (Some \<lparr>name = title album @ '' by '' @ artist album, price = price,
                           condition = ''New'', sleeve_condition = ''New'',
                           link = album_link album, image = imageUrl pg\<rparr>)))"

text \<open>
  For the concrete scenario: the number that \<open>parseFloat\<close> reads from a text that starts
  with decimal digits and has no fraction or exponent after them, and \<open>NaN\<close> for a text
  that does not start with a digit.
\<close>

definition is_digit :: "nat \<Rightarrow> bool" where
  "is_digit c = (48 \<le> c \<and> c \<le> 57)"

definition parse_digits :: "utf16 \<Rightarrow> jsnum" where
  "parse_digits text =
     (case takeWhile is_digit text of
        [] \<Rightarrow> NaN
      | d # ds \<Rightarrow> Num (of_nat (foldl (\<lambda>n c. 10 * n + (c - 48)) 0 (d # ds))))"

definition sample_album :: album where
  "sample_album = \<lparr>title = ''Blue'', artist = ''Joni'', album_link = ''https://joni.example/album/blue''\<rparr>"

section \<open>The pipeline: \<open>main\<close> and its stages\<close>

text \<open>
  The module-level variables. They are initialised once, when the module is loaded, and
  every call of \<open>main\<close> works on them. Release identifiers and listing identifiers are
  both of type \<open>ident\<close>; \<open>wantList\<close> is \<open>null\<close> or \<open>undefined\<close> (\<open>None\<close>) or the list
  of the identifiers of its entries.
\<close>

record globals =
  releaseIDs :: "ident list"
  marketplaceIDs :: "ident list"
  listingData :: "rat listing list"
  wantList :: "ident list option"
  filteredListings :: "rat listing list"
  uniqueListings :: "rat listing list"

definition initial_globals :: globals where
  "initial_globals = \<lparr>releaseIDs = [], marketplaceIDs = [], listingData = [], wantList = None,
     filteredListings = [], uniqueListings = []\<rparr>"

text \<open>
  What is sent on the progress channel: a plain message, \<open>Progress: p% | text\<close>, the
  \<open>Progress: p% | Collecting marketplace IDs: k/n\<close> of the identifier collector, and the
  \<open>Progress: p% | ETA: t s | text\<close> of \<open>updateProgress\<close>.
\<close>

datatype sse_event =
    Message string
  | Progress int string
  | ProgressCount int nat nat
  | ProgressEta int int string

text \<open>\<open>Math.round\<close>: the nearest integer, a half rounded up. The quotients it is applied
  to are taken exactly.\<close>

definition js_round :: "rat \<Rightarrow> int" where
  "js_round x = \<lfloor>x + 1 / 2\<rfloor>"

text \<open>
  The two tasks of \<open>main\<close> run concurrently and meet in three places only: both push onto
  \<open>listingData\<close>, both send on the channel, and both call \<open>updateProgress\<close>, which counts
  \<open>completedSteps\<close>. A task is therefore modelled by the sequence of these actions that it
  performs, and the run of both by an interleaving of the two sequences.
\<close>

datatype action = Push "rat listing" | Send sse_event | UpdateProgress string

text \<open>The part of the environment that \<open>main\<close> meets, for one call:
  the two configuration variables; the outcome of the want-list request (\<open>None\<close> when the
  chain ends in its \<open>catch\<close>, otherwise \<open>data.wants\<close>); for the \<open>i\<close>-th release the
  identifiers extracted from its sale page (\<open>None\<close> when the request fails); the remote of
  the listing requests; the wishlist (\<open>None\<close> when its request fails); for each album the
  listing, with a finite price, that \<open>fetchBandcampAlbumDetails\<close> resolves to, \<open>None\<close>
  when it resolves to \<open>null\<close> or rejects; and the schedule, which says at each step
  which task acts next (\<open>True\<close> for the Discogs task).\<close>

record env =
  DGS_USERNAME :: "string option"
  TIMER_LIMIT :: "string option"
  want_response :: "ident list option option"
  sale_page :: "nat \<Rightarrow> ident \<Rightarrow> ident list option"
  listing_remote :: remote
  wishlist_response :: "album list option"
  album_details :: "album \<Rightarrow> rat listing option"
  schedule :: "bool list"

text \<open>A variable of the process environment is truthy when it is set and not empty.\<close>

definition truthy :: "string option \<Rightarrow> bool" where
  "truthy v = (case v of None \<Rightarrow> False | Some s \<Rightarrow> s \<noteq> [])"

definition checkForEnvironmentVariables :: "env \<Rightarrow> bool" where
  "checkForEnvironmentVariables e = (if truthy (DGS_USERNAME e) \<and> truthy (TIMER_LIMIT e) then True else False)"

definition fetchWantlist :: "ident list option option \<Rightarrow> globals \<Rightarrow> globals \<times> action list" where
  "fetchWantlist response g =
     (case response of
        None \<Rightarrow> (g, [])
      | Some wants \<Rightarrow> (g\<lparr>wantList := wants\<rparr>, [Send (Progress 20 ''Fetched wantlist'')]))"

text \<open>\<open>wantList.length\<close> throws when \<open>wantList\<close> is \<open>null\<close> or \<open>undefined\<close>.\<close>

definition collectReleaseIDs :: "globals \<Rightarrow> error + globals \<times> action list" where
  "collectReleaseIDs g =
     (case wantList g of
        None \<Rightarrow> Inl (TypeError ''Cannot read properties of null (reading length)'')
      | Some wants \<Rightarrow>
          Inr (g\<lparr>releaseIDs := releaseIDs g @ wants\<rparr>,
               [Send (Progress 40 ''Collected release IDs'')]))"

text \<open>The body of the loop of \<open>collectMarketplaceIDs\<close> for index \<open>i\<close>.\<close>

definition collect_step ::
  "(nat \<Rightarrow> ident \<Rightarrow> ident list option) \<Rightarrow> globals \<times> action list \<Rightarrow> nat \<Rightarrow> globals \<times> action list"
where
  "collect_step pages st i =
     (case st of (g, acts) \<Rightarrow>
        (let found = (case pages i (releaseIDs g ! i) of None \<Rightarrow> [] | Some ids \<Rightarrow> ids);
             percentage = js_round ((of_nat (i + 1) / of_nat (length (releaseIDs g))) * 20) + 40
         in (g\<lparr>marketplaceIDs := marketplaceIDs g @ found\<rparr>,
             acts @ [Send (ProgressCount percentage (i + 1) (length (releaseIDs g)))])))"

definition collectMarketplaceIDs ::
  "(nat \<Rightarrow> ident \<Rightarrow> ident list option) \<Rightarrow> globals \<Rightarrow> globals \<times> action list" where
  "collectMarketplaceIDs pages g = foldl (collect_step pages) (g, []) [0 ..< length (releaseIDs g)]"

text \<open>
  \<open>discogsTasks\<close>, with its \<open>try\<close> and \<open>catch\<close>: the globals it leaves, its actions, and
  whether \<open>discogsSuccess\<close> is still true. \<open>None\<close> is the task that never settles.
\<close>

definition discogsTasks :: "env \<Rightarrow> globals \<Rightarrow> (globals \<times> action list \<times> bool) option" where
  "discogsTasks e g =
     (case fetchWantlist (want_response e) g of (g1, a1) \<Rightarrow>
        (let acts1 = [Send (Message ''Fetching wantlist'')] @ a1
                      @ [UpdateProgress ''Fetched wantlist'',
                         Send (Message ''Collecting release IDs'')]
         in case collectReleaseIDs g1 of
              Inl error \<Rightarrow> Some (g1, acts1, False)
            | Inr (g2, a2) \<Rightarrow>
                (case collectMarketplaceIDs (sale_page e) g2 of (g3, a3) \<Rightarrow>
                   (let acts3 = acts1 @ a2
                                 @ [UpdateProgress ''Collected release IDs'',
                                    Send (Message ''Collecting marketplace IDs'')]
                                 @ a3
                                 @ [UpdateProgress ''Collected marketplace IDs'',
                                    Send (Message ''Fetching marketplace listing data'')]
                    in case fetchMarketplaceListingData (listing_remote e) (marketplaceIDs g3) of
                         None \<Rightarrow> None
                       | Some (Completed, fs) \<Rightarrow>
                           Some (g3, acts3 @ map Push (pushed fs)
                                      @ [UpdateProgress ''Fetched marketplace data''], True)
                       | Some (ProbeFailed error effects, fs) \<Rightarrow>
                           Some (g3, acts3 @ map Push (pushed fs), False)))))"

text \<open>
  \<open>bandcampTasks\<close>: a failed wishlist request is the only rejection of
  \<open>integrateBandcampData\<close>; the album requests push their listing or nothing. They run
  concurrently and push as they complete; the model lists the pushes in the order of the
  wishlist.
\<close>

definition bandcampTasks :: "env \<Rightarrow> action list \<times> bool" where
  "bandcampTasks e =
     (case wishlist_response e of
        None \<Rightarrow> ([Send (Message ''Integrating Bandcamp data'')], False)
      | Some wishlist \<Rightarrow>
          ([Send (Message ''Integrating Bandcamp data'')]
             @ map Push (List.map_filter (album_details e) wishlist)
             @ [UpdateProgress ''Integrated Bandcamp data''], True))"

text \<open>The interleaving that a schedule picks; a schedule that runs out lets the Discogs
  task finish first.\<close>

fun interleave :: "bool list \<Rightarrow> 'a list \<Rightarrow> 'a list \<Rightarrow> 'a list" where
  "interleave sch [] ys = ys"
| "interleave sch (x # xs) [] = x # xs"
| "interleave [] (x # xs) (y # ys) = (x # xs) @ (y # ys)"
| "interleave (True # sch) (x # xs) (y # ys) = x # interleave sch xs (y # ys)"
| "interleave (False # sch) (x # xs) (y # ys) = y # interleave sch (x # xs) ys"

text \<open>
  What the actions work on during a call of \<open>main\<close>: the accumulator, the counter
  \<open>completedSteps\<close> of \<open>updateProgress\<close>, and what has been sent.
\<close>

record run =
  accumulator :: "rat listing list"
  completedSteps :: nat
  sent :: "sse_event list"

definition totalSteps :: nat where "totalSteps = 5"

definition updateProgress :: "string \<Rightarrow> run \<Rightarrow> run" where
  "updateProgress stepDescription r =
     (let steps = completedSteps r + 1;
          percentage = js_round ((of_nat steps / of_nat totalSteps) * 100);
          eta = js_round ((of_nat totalSteps - of_nat steps) * 2)
      in r\<lparr>completedSteps := steps,
            sent := sent r @ [ProgressEta percentage eta stepDescription]\<rparr>)"

fun perform :: "run \<Rightarrow> action \<Rightarrow> run" where
  "perform r (Push l) = r\<lparr>accumulator := accumulator r @ [l]\<rparr>"
| "perform r (Send ev) = r\<lparr>sent := sent r @ [ev]\<rparr>"
| "perform r (UpdateProgress stepDescription) = updateProgress stepDescription r"

text \<open>What \<open>main\<close> resolves to: the object with the results and the two flags.\<close>

record pipeline_result =
  results :: "rat listing list"
  discogsSuccess :: bool
  bandcampSuccess :: bool

text \<open>
  \<open>main\<close>. It resolves to \<open>undefined\<close> (\<open>None\<close>) when the configuration check fails, and
  to a result object otherwise; next to that the model returns the globals it leaves and
  what it has sent. The outer \<open>None\<close> is the call that never settles.
\<close>

definition main :: "env \<Rightarrow> globals \<Rightarrow> (pipeline_result option \<times> globals \<times> sse_event list) option"
where
  "main e g =
     (if checkForEnvironmentVariables e then
        (case discogsTasks e g of
           None \<Rightarrow> None
         | Some (g', discogs_actions, discogs_ok) \<Rightarrow>
             (case bandcampTasks e of (bandcamp_actions, bandcamp_ok) \<Rightarrow>
                (let r = foldl perform
                           \<lparr>accumulator = listingData g', completedSteps = 0, sent = []\<rparr>
                           (interleave (schedule e) discogs_actions bandcamp_actions)
                 in if discogs_ok \<or> bandcamp_ok then
                      (let sorted_data = sortByPrice (accumulator r);
                           r1 = foldl perform r
                                  [Send (Message ''Sorting by price''),
                                   UpdateProgress ''Sorted by price'',
                                   Send (Message ''Removing duplicates'')];
                           unique = removeDuplicates sorted_data;
                           r2 = foldl perform r1
                                  [UpdateProgress ''Removed duplicates'',
                                   Send (Message ''Trimming results'')];
                           filtered = trimResults unique;
                           r3 = foldl perform r2
                                  [UpdateProgress ''Trimmed results'', Send (Message ''Done!'')]
                       in Some (Some \<lparr>results = filtered, discogsSuccess = discogs_ok,
                                       bandcampSuccess = bandcamp_ok\<rparr>,
                                g'\<lparr>listingData := sorted_data, uniqueListings := unique,
                                    filteredListings := filtered\<rparr>,
                                sent r3))
                    else
                      Some (Some \<lparr>results = [], discogsSuccess = discogs_ok,
                                   bandcampSuccess = bandcamp_ok\<rparr>,
                            g'\<lparr>listingData := accumulator r\<rparr>,
                            sent r @ [Message ''Both APIs failed.'']))))
      else Some (None, g, []))"

text \<open>The listings that a sequence of actions pushes, and the percent values that a
  sequence of events carries.\<close>

definition pushes :: "action list \<Rightarrow> rat listing list" where
  "pushes acts = List.map_filter (\<lambda>a. case a of Push l \<Rightarrow> Some l | _ \<Rightarrow> None) acts"

definition percent :: "sse_event \<Rightarrow> int option" where
  "percent ev =
     (case ev of
        Message text \<Rightarrow> None
      | Progress p text \<Rightarrow> Some p
      | ProgressCount p k n \<Rightarrow> Some p
      | ProgressEta p eta text \<Rightarrow> Some p)"

definition percents :: "sse_event list \<Rightarrow> int list" where
  "percents evs = List.map_filter percent evs"

text \<open>The percent values of the events that \<open>updateProgress\<close> sends.\<close>

definition step_percents :: "sse_event list \<Rightarrow> int list" where
  "step_percents evs =
     List.map_filter (\<lambda>ev. case ev of ProgressEta p eta text \<Rightarrow> Some p | _ \<Rightarrow> None) evs"

text \<open>Projections of what a call of \<open>main\<close> yields.\<close>

definition returned :: "(pipeline_result option \<times> globals \<times> sse_event list) option
    \<Rightarrow> pipeline_result option" where
  "returned outcome = (case outcome of Some (Some res, g, evs) \<Rightarrow> Some res | _ \<Rightarrow> None)"

definition globals_after :: "(pipeline_result option \<times> globals \<times> sse_event list) option
    \<Rightarrow> globals \<Rightarrow> globals" where
  "globals_after outcome g = (case outcome of Some (res, g', evs) \<Rightarrow> g' | None \<Rightarrow> g)"

definition events_of :: "(pipeline_result option \<times> globals \<times> sse_event list) option
    \<Rightarrow> sse_event list" where
  "events_of outcome = (case outcome of Some (res, g, evs) \<Rightarrow> evs | None \<Rightarrow> [])"

text \<open>Environments for the concrete scenarios.\<close>

definition env_base :: env where
  "env_base = \<lparr>DGS_USERNAME = Some ''collector'', TIMER_LIMIT = Some ''1000'',
     want_response = Some None, sale_page = (\<lambda>i release. Some []),
     listing_remote = steady_remote 1, wishlist_response = Some [],
     album_details = (\<lambda>a. None), schedule = []\<rparr>"

definition env_missing :: env where
  "env_missing = env_base\<lparr>TIMER_LIMIT := None\<rparr>"

text \<open>A remote that serves the first wave and then stops answering.\<close>

definition first_wave_only :: remote where
  "first_wave_only w s k =
     (if w = 0
      then Responded \<lparr>status = 200, ratelimit_remaining = Some 1,
                      body = ListingJson (sample ''Kind of Blue'' 5 ''/sell/item/101'')\<rparr>
      else Rejected ''timeout'')"

definition env_partial :: env where
  "env_partial = env_base\<lparr>want_response := Some (Some [''r1'']),
     sale_page := (\<lambda>i release. Some [''101'', ''102'']),
     listing_remote := first_wave_only,
     wishlist_response := Some [sample_album],
     album_details := (\<lambda>a. Some (sample ''Blue by Joni'' 12 ''https://joni.example/album/blue''))\<rparr>"

text \<open>Four wanted releases without listings, and a storefront task that finishes while
  the marketplace identifiers are being collected.\<close>

definition env_overtaken :: env where
  "env_overtaken = env_base\<lparr>want_response := Some (Some [''r1'', ''r2'', ''r3'', ''r4'']),
     schedule := [True, False, True, True, True, True, True, True, True, False]\<rparr>"

text \<open>The want list is missing and the storefront wishlist has one album.\<close>

definition env_storefront_only :: env where
  "env_storefront_only = env_base\<lparr>wishlist_response := Some [sample_album],
     album_details := (\<lambda>a. Some (sample ''Blue by Joni'' 12 ''https://joni.example/album/blue''))\<rparr>"

text \<open>One wanted release with one listing, and a storefront that does not answer.\<close>

definition env_storefront_down :: env where
  "env_storefront_down = env_base\<lparr>want_response := Some (Some [''r1'']),
     sale_page := (\<lambda>i release. Some [''101'']),
     wishlist_response := None\<rparr>"

text \<open>
  For the order of the percent values: whether an action sends an event that carries a
  percent value; how many calls of \<open>updateProgress\<close> a sequence of actions makes; and
  the percent values that a sequence of actions publishes when \<open>completedSteps\<close> is \<open>c\<close>
  at its start.
\<close>

definition publishes :: "action \<Rightarrow> bool" where
  "publishes a = (case a of Send ev \<Rightarrow> percent ev \<noteq> None | _ \<Rightarrow> False)"

definition updates :: "action list \<Rightarrow> nat" where
  "updates acts = length (filter (\<lambda>a. case a of UpdateProgress d \<Rightarrow> True | _ \<Rightarrow> False) acts)"

fun trace :: "nat \<Rightarrow> action list \<Rightarrow> int list" where
  "trace c [] = []"
| "trace c (Push l # acts) = trace c acts"
| "trace c (Send ev # acts) = (case percent ev of None \<Rightarrow> [] | Some p \<Rightarrow> [p]) @ trace c acts"
| "trace c (UpdateProgress d # acts) = 20 * int (c + 1) # trace (c + 1) acts"

text \<open>
  \<open>steady lo c acts\<close>: started with \<open>completedSteps = c\<close> after a percent value \<open>lo\<close>, every
  event that a stage sends with a percent value of its own carries a value that is not
  below the value before it and not above the value of the next call of
  \<open>updateProgress\<close>.
\<close>

fun steady :: "int \<Rightarrow> nat \<Rightarrow> action list \<Rightarrow> bool" where
  "steady lo c [] = True"
| "steady lo c (Push l # acts) = steady lo c acts"
| "steady lo c (Send ev # acts) =
     (case percent ev of
        None \<Rightarrow> steady lo c acts
      | Some p \<Rightarrow> lo \<le> p \<and> p \<le> 20 * int (c + 1) \<and> steady p c acts)"
| "steady lo c (UpdateProgress d # acts) = steady (20 * int (c + 1)) (c + 1) acts"

text \<open>What \<open>main\<close> does after both tasks have settled with a success.\<close>

definition closing_actions :: "action list" where
  "closing_actions =
     [Send (Message ''Sorting by price''), UpdateProgress ''Sorted by price'',
      Send (Message ''Removing duplicates''), UpdateProgress ''Removed duplicates'',
      Send (Message ''Trimming results''), UpdateProgress ''Trimmed results'',
      Send (Message ''Done!'')]"

text \<open>The percentage that \<open>collectMarketplaceIDs\<close> sends after the release at index
  \<open>i\<close> of \<open>n\<close>.\<close>

definition count_percent :: "nat \<Rightarrow> nat \<Rightarrow> int" where
  "count_percent n i = js_round ((of_nat (i + 1) / of_nat n) * 20) + 40"

text \<open>An action other than the sending of an event of the form that \<open>updateProgress\<close>
  sends; the tasks perform no other.\<close>

definition plain :: "action \<Rightarrow> bool" where
  "plain a = (case a of Send (ProgressEta p t d) \<Rightarrow> False | _ \<Rightarrow> True)"

section \<open>Properties of \<open>removeDuplicates\<close>\<close>

lemma first_occurrences_snoc:
  "first_occurrences (xs @ [x]) =
     (if x \<in> set xs then first_occurrences xs else first_occurrences xs @ [x])"
  by (simp add: first_occurrences_def)

lemma set_first_occurrences: "set (first_occurrences xs) = set xs"
  by (simp add: first_occurrences_def)

lemma distinct_first_occurrences: "distinct (first_occurrences xs)"
  by (simp add: first_occurrences_def)

lemma removeDuplicates_snoc:
  "removeDuplicates (xs @ [x]) = dedupe_step (removeDuplicates xs) x"
  by (simp add: removeDuplicates_def)

lemma find_None_name:
  "find (\<lambda>item. name item = n) acc = None \<longleftrightarrow> n \<notin> name ` set acc"
  by (auto simp: find_None_iff)

lemma find_indexOf:
  "find P acc = Some e \<Longrightarrow>
     \<exists>k. indexOf e acc = Some k \<and> k < length acc \<and> acc ! k = e \<and> P e"
proof (induction acc)
  case Nil
  then show ?case by simp
next
  case (Cons a acc)
  show ?case
  proof (cases "P a")
    case True
    with Cons.prems show ?thesis by auto
  next
    case False
    with Cons.prems have "find P acc = Some e" by simp
    from Cons.IH [OF this] obtain k where
      k: "indexOf e acc = Some k" "k < length acc" "acc ! k = e" "P e" by blast
    with False have "a \<noteq> e" by auto
    with k show ?thesis by auto
  qed
qed

text \<open>
  On an accumulator with pairwise distinct names the step replaces, in place, the one
  record of the same name when the current record is strictly cheaper.
\<close>

lemma dedupe_step_present:
  assumes "distinct (map name acc)" "name cur \<in> name ` set acc"
  shows "dedupe_step acc cur =
           map (\<lambda>a. if name a = name cur \<and> price cur < price a then cur else a) acc"
proof -
  from assms(2) obtain e where e: "find (\<lambda>item. name item = name cur) acc = Some e"
    by (cases "find (\<lambda>item. name item = name cur) acc") (auto simp: find_None_name)
  from find_indexOf [OF e] obtain k where
    k: "indexOf e acc = Some k" "k < length acc" "acc ! k = e" "name e = name cur" by blast
  have uniq: "j < length acc \<Longrightarrow> name (acc ! j) = name cur \<Longrightarrow> j = k" for j
    using assms(1) k by (metis distinct_conv_nth length_map nth_map)
  show ?thesis
  proof (cases "price cur < price e")
    case True
    have "acc[k := cur] =
            map (\<lambda>a. if name a = name cur \<and> price cur < price a then cur else a) acc"
    proof (rule nth_equalityI)
      show "length (acc[k := cur]) =
              length (map (\<lambda>a. if name a = name cur \<and> price cur < price a then cur else a) acc)"
        by simp
    next
      fix j assume "j < length (acc[k := cur])"
      then have j: "j < length acc" by simp
      show "acc[k := cur] ! j =
              map (\<lambda>a. if name a = name cur \<and> price cur < price a then cur else a) acc ! j"
      proof (cases "j = k")
        case True
        with k \<open>price cur < price e\<close> show ?thesis by simp
      next
        case False
        with uniq j have "name (acc ! j) \<noteq> name cur" by blast
        with False j show ?thesis by simp
      qed
    qed
    with e k True show ?thesis by (simp add: dedupe_step_def)
  next
    case False
    have "map (\<lambda>a. if name a = name cur \<and> price cur < price a then cur else a) acc = acc"
    proof (rule map_idI)
      fix a assume "a \<in> set acc"
      then obtain j where j: "j < length acc" "acc ! j = a" by (auto simp: in_set_conv_nth)
      show "(if name a = name cur \<and> price cur < price a then cur else a) = a"
      proof (cases "name a = name cur")
        case True
        with uniq j have "j = k" by blast
        with j k False show ?thesis by simp
      next
        case False
        then show ?thesis by simp
      qed
    qed
    with e False show ?thesis by (simp add: dedupe_step_def)
  qed
qed

lemma dedupe_step_absent:
  "name cur \<notin> name ` set acc \<Longrightarrow> dedupe_step acc cur = acc @ [cur]"
  by (simp add: dedupe_step_def find_None_name [symmetric])

lemma names_dedupe_step:
  assumes "distinct (map name acc)"
  shows "map name (dedupe_step acc cur) =
           (if name cur \<in> name ` set acc then map name acc else map name acc @ [name cur])"
proof (cases "name cur \<in> name ` set acc")
  case True
  have "map name (map (\<lambda>a. if name a = name cur \<and> price cur < price a then cur else a) acc)
          = map name acc"
    by (induction acc) auto
  with True assms show ?thesis by (simp add: dedupe_step_present)
next
  case False
  then show ?thesis by (simp add: dedupe_step_absent)
qed

lemma names_removeDuplicates:
  "map name (removeDuplicates xs) = first_occurrences (map name xs)"
proof (induction xs rule: rev_induct)
  case Nil
  then show ?case by (simp add: removeDuplicates_def first_occurrences_def)
next
  case (snoc x xs)
  have d: "distinct (map name (removeDuplicates xs))"
    by (simp add: snoc.IH distinct_first_occurrences)
  have s: "name ` set (removeDuplicates xs) = name ` set xs"
    using arg_cong [OF snoc.IH, of set] by (simp add: set_first_occurrences)
  show ?case
    by (simp add: removeDuplicates_snoc names_dedupe_step [OF d] s first_occurrences_snoc
        snoc.IH)
qed

lemma distinct_names_removeDuplicates: "distinct (map name (removeDuplicates xs))"
  by (simp add: names_removeDuplicates distinct_first_occurrences)

lemma name_set_removeDuplicates: "name ` set (removeDuplicates xs) = name ` set xs"
  using arg_cong [OF names_removeDuplicates, of set xs] by (simp add: set_first_occurrences)

lemma indexOf_append_fresh: "a \<notin> set ys \<Longrightarrow> indexOf a (ys @ a # zs) = Some (length ys)"
  by (induction ys) auto

lemma indexOf_Some: "indexOf a xs = Some k \<Longrightarrow> k < length xs \<and> xs ! k = a"
  by (induction xs arbitrary: k) (auto split: if_splits)

lemma first_cheapest_iff:
  "first_cheapest a xs \<longleftrightarrow>
     (\<exists>ys zs. filter (\<lambda>x. name x = name a) xs = ys @ a # zs
        \<and> (\<forall>y \<in> set ys. price a < price y) \<and> (\<forall>z \<in> set zs. price a \<le> price z))"
  (is "?L \<longleftrightarrow> ?R")
proof
  assume ?L
  then obtain k where k: "indexOf a (filter (\<lambda>x. name x = name a) xs) = Some k"
    and ys: "\<forall>y \<in> set (take k (filter (\<lambda>x. name x = name a) xs)). price a < price y"
    and zs: "\<forall>z \<in> set (drop (Suc k) (filter (\<lambda>x. name x = name a) xs)). price a \<le> price z"
    by (auto simp: first_cheapest_def Let_def split: option.splits)
  from indexOf_Some [OF k]
  have "filter (\<lambda>x. name x = name a) xs =
          take k (filter (\<lambda>x. name x = name a) xs) @ a # drop (Suc k) (filter (\<lambda>x. name x = name a) xs)"
    by (metis id_take_nth_drop)
  with ys zs show ?R by blast
next
  assume ?R
  then obtain ys zs where f: "filter (\<lambda>x. name x = name a) xs = ys @ a # zs"
    and ys: "\<forall>y \<in> set ys. price a < price y" and zs: "\<forall>z \<in> set zs. price a \<le> price z"
    by blast
  from ys have "a \<notin> set ys" by auto
  then have "indexOf a (ys @ a # zs) = Some (length ys)" by (rule indexOf_append_fresh)
  with f ys zs show ?L by (simp add: first_cheapest_def)
qed

lemma first_cheapest_mem: "first_cheapest a xs \<Longrightarrow> a \<in> set xs"
proof -
  assume "first_cheapest a xs"
  then obtain ys zs where "filter (\<lambda>x. name x = name a) xs = ys @ a # zs"
    unfolding first_cheapest_iff by blast
  then have "a \<in> set (filter (\<lambda>x. name x = name a) xs)" by simp
  then show ?thesis by simp
qed

lemma first_cheapest_le:
  assumes "first_cheapest a xs" "x \<in> set xs" "name x = name a"
  shows "price a \<le> price x"
proof -
  from assms(1) obtain ys zs where f: "filter (\<lambda>x. name x = name a) xs = ys @ a # zs"
    and ys: "\<forall>y \<in> set ys. price a < price y" and zs: "\<forall>z \<in> set zs. price a \<le> price z"
    unfolding first_cheapest_iff by blast
  from assms(2,3) have "x \<in> set (filter (\<lambda>x. name x = name a) xs)" by simp
  with f have "x \<in> set ys \<or> x = a \<or> x \<in> set zs" by auto
  with ys zs show ?thesis by auto
qed

lemma first_cheapest_other:
  "first_cheapest a xs \<Longrightarrow> name x \<noteq> name a \<Longrightarrow> first_cheapest a (xs @ [x])"
  by (simp add: first_cheapest_iff)

lemma first_cheapest_keep:
  assumes "first_cheapest a xs" "name x = name a" "price a \<le> price x"
  shows "first_cheapest a (xs @ [x])"
proof -
  from assms(1) obtain ys zs where f: "filter (\<lambda>x. name x = name a) xs = ys @ a # zs"
    and ys: "\<forall>y \<in> set ys. price a < price y" and zs: "\<forall>z \<in> set zs. price a \<le> price z"
    unfolding first_cheapest_iff by blast
  from f assms(2) have "filter (\<lambda>x. name x = name a) (xs @ [x]) = ys @ a # (zs @ [x])"
    by simp
  moreover from zs assms(3) have "\<forall>z \<in> set (zs @ [x]). price a \<le> price z" by simp
  ultimately show ?thesis unfolding first_cheapest_iff using ys by blast
qed

lemma first_cheapest_replace:
  assumes "first_cheapest a xs" "name x = name a" "price x < price a"
  shows "first_cheapest x (xs @ [x])"
proof -
  from assms(1) obtain ys zs where f: "filter (\<lambda>x. name x = name a) xs = ys @ a # zs"
    and ys: "\<forall>y \<in> set ys. price a < price y" and zs: "\<forall>z \<in> set zs. price a \<le> price z"
    unfolding first_cheapest_iff by blast
  from f assms(2) have "filter (\<lambda>y. name y = name x) (xs @ [x]) = (ys @ a # zs) @ x # []"
    by simp
  moreover from ys zs assms(3) have "\<forall>y \<in> set (ys @ a # zs). price x < price y" by auto
  ultimately have "filter (\<lambda>y. name y = name x) (xs @ [x]) = (ys @ a # zs) @ x # []
      \<and> (\<forall>y \<in> set (ys @ a # zs). price x < price y) \<and> (\<forall>z \<in> set []. price x \<le> price z)"
    by simp
  then show ?thesis unfolding first_cheapest_iff by (intro exI)
qed

lemma first_cheapest_new:
  assumes "name x \<notin> name ` set xs"
  shows "first_cheapest x (xs @ [x])"
proof -
  from assms have "\<forall>y \<in> set xs. name y \<noteq> name x" by (metis imageI)
  then have "filter (\<lambda>y. name y = name x) xs = []"
    by (simp add: filter_empty_conv)
  then have "filter (\<lambda>y. name y = name x) (xs @ [x]) = [] @ x # []
      \<and> (\<forall>y \<in> set []. price x < price y) \<and> (\<forall>z \<in> set []. price x \<le> price z)"
    by simp
  then show ?thesis unfolding first_cheapest_iff by (intro exI)
qed

lemma first_cheapest_removeDuplicates:
  "a \<in> set (removeDuplicates xs) \<Longrightarrow> first_cheapest a xs"
proof (induction xs arbitrary: a rule: rev_induct)
  case Nil
  then show ?case by (simp add: removeDuplicates_def)
next
  case (snoc x xs)
  let ?acc = "removeDuplicates xs"
  have d: "distinct (map name ?acc)" by (rule distinct_names_removeDuplicates)
  show ?case
  proof (cases "name x \<in> name ` set ?acc")
    case False
    with snoc.prems have "a \<in> set ?acc \<or> a = x"
      by (auto simp: removeDuplicates_snoc dedupe_step_absent)
    then show ?thesis
    proof
      assume a: "a \<in> set ?acc"
      with False have "name x \<noteq> name a" by auto
      with snoc.IH [OF a] show ?thesis by (rule first_cheapest_other)
    next
      assume "a = x"
      with False show ?thesis by (simp add: first_cheapest_new name_set_removeDuplicates)
    qed
  next
    case True
    with snoc.prems d obtain b where b: "b \<in> set ?acc"
      and ab: "a = (if name b = name x \<and> price x < price b then x else b)"
      by (auto simp: removeDuplicates_snoc dedupe_step_present)
    note fb = snoc.IH [OF b]
    show ?thesis
    proof (cases "name b = name x")
      case False
      with ab have "a = b" by simp
      with fb False show ?thesis by (simp add: first_cheapest_other)
    next
      case same: True
      show ?thesis
      proof (cases "price x < price b")
        case True
        with same ab have "a = x" by simp
        with fb same True show ?thesis by (simp add: first_cheapest_replace)
      next
        case False
        with ab have "a = b" by simp
        with fb same False show ?thesis by (simp add: first_cheapest_keep)
      qed
    qed
  qed
qed

lemma first_cheapest_unique:
  assumes "first_cheapest a xs" "first_cheapest b xs" "name a = name b"
  shows "a = b"
proof -
  from assms(1) obtain ys zs where f: "filter (\<lambda>x. name x = name a) xs = ys @ a # zs"
    and ys: "\<forall>y \<in> set ys. price a < price y" and zs: "\<forall>z \<in> set zs. price a \<le> price z"
    unfolding first_cheapest_iff by blast
  from assms(2,3) obtain ys' zs' where f': "filter (\<lambda>x. name x = name a) xs = ys' @ b # zs'"
    and ys': "\<forall>y \<in> set ys'. price b < price y" and zs': "\<forall>z \<in> set zs'. price b \<le> price z"
    unfolding first_cheapest_iff by auto
  have ab: "price a \<le> price b"
    using first_cheapest_le [OF assms(1) first_cheapest_mem [OF assms(2)]] assms(3) by simp
  have ba: "price b \<le> price a"
    using first_cheapest_le [OF assms(2) first_cheapest_mem [OF assms(1)]] assms(3) by simp
  from ys ba have "b \<notin> set ys" by auto
  moreover from ys' ab have "a \<notin> set ys'" by auto
  moreover from f f' have "ys @ a # zs = ys' @ b # zs'" by simp
  ultimately show ?thesis
    by (auto simp: append_eq_append_conv2 Cons_eq_append_conv append_eq_Cons_conv)
qed

lemma removeDuplicates_subset: "set (removeDuplicates xs) \<subseteq> set xs"
  using first_cheapest_removeDuplicates first_cheapest_mem by blast

lemma distinct_removeDuplicates: "distinct (removeDuplicates xs)"
  using distinct_names_removeDuplicates [of xs] by (simp add: distinct_map)

lemma sorted_removeDuplicates:
  "sorted (map price xs) \<Longrightarrow> sorted (map price (removeDuplicates xs))"
proof (induction xs rule: rev_induct)
  case Nil
  then show ?case by (simp add: removeDuplicates_def)
next
  case (snoc x xs)
  let ?acc = "removeDuplicates xs"
  from snoc.prems have sx: "sorted (map price xs)" and le: "\<forall>y \<in> set xs. price y \<le> price x"
    by (auto simp: sorted_append)
  have accle: "\<forall>a \<in> set ?acc. price a \<le> price x"
    using le removeDuplicates_subset [of xs] by blast
  have d: "distinct (map name ?acc)" by (rule distinct_names_removeDuplicates)
  show ?case
  proof (cases "name x \<in> name ` set ?acc")
    case False
    with snoc.IH [OF sx] accle show ?thesis
      by (auto simp: removeDuplicates_snoc dedupe_step_absent sorted_append)
  next
    case True
    have "map (\<lambda>a. if name a = name x \<and> price x < price a then x else a) ?acc = ?acc"
      using accle by (intro map_idI) auto
    with True d snoc.IH [OF sx] show ?thesis
      by (simp add: removeDuplicates_snoc dedupe_step_present)
  qed
qed

lemma insort_key_least:
  "\<forall>s \<in> set S. f a \<le> f s \<Longrightarrow> insort_key f a S = a # S"
  by (cases S) auto

lemma sort_key_first_cheapest:
  "\<forall>y \<in> set ys. f a < f y \<Longrightarrow> \<forall>z \<in> set zs. f a \<le> f z \<Longrightarrow>
     \<exists>rest. sort_key f (ys @ a # zs) = a # rest \<and> (\<forall>r \<in> set rest. f a \<le> f r)"
proof (induction ys)
  case Nil
  then have "insort_key f a (sort_key f zs) = a # sort_key f zs"
    by (intro insort_key_least) simp
  with Nil show ?case by simp
next
  case (Cons y ys)
  then obtain rest where r: "sort_key f (ys @ a # zs) = a # rest" "\<forall>r \<in> set rest. f a \<le> f r"
    by auto
  from Cons.prems have "f a < f y" by simp
  with r have "sort_key f ((y # ys) @ a # zs) = a # insort_key f y rest"
    by auto
  moreover from r \<open>f a < f y\<close> have "\<forall>r \<in> set (insort_key f y rest). f a \<le> f r"
    by (auto simp: set_insort_key)
  ultimately show ?case by blast
qed

lemma first_cheapest_sortByPrice:
  assumes "first_cheapest a xs"
  shows "first_cheapest a (sortByPrice xs)"
proof -
  from assms obtain ys zs where f: "filter (\<lambda>x. name x = name a) xs = ys @ a # zs"
    and ys: "\<forall>y \<in> set ys. price a < price y" and zs: "\<forall>z \<in> set zs. price a \<le> price z"
    unfolding first_cheapest_iff by blast
  from sort_key_first_cheapest [OF ys zs] obtain rest where
    r: "sort_key price (ys @ a # zs) = a # rest" "\<forall>r \<in> set rest. price a \<le> price r"
    by blast
  have "filter (\<lambda>x. name x = name a) (sortByPrice xs) = [] @ a # rest
      \<and> (\<forall>y \<in> set []. price a < price y) \<and> (\<forall>z \<in> set rest. price a \<le> price z)"
    using f r by (simp add: sortByPrice_def filter_sort)
  then show ?thesis unfolding first_cheapest_iff by (intro exI)
qed

lemma set_removeDuplicates_sortByPrice:
  "set (removeDuplicates (sortByPrice xs)) = set (removeDuplicates xs)"
proof -
  have names: "name ` set (removeDuplicates (sortByPrice xs)) = name ` set (removeDuplicates xs)"
    by (simp add: name_set_removeDuplicates sortByPrice_def)
  have eq: "a = b"
    if "a \<in> set (removeDuplicates (sortByPrice xs))" "b \<in> set (removeDuplicates xs)"
      "name a = name b" for a b
    using that first_cheapest_removeDuplicates first_cheapest_sortByPrice first_cheapest_unique
    by blast
  show ?thesis
  proof (intro equalityI subsetI)
    fix a assume a: "a \<in> set (removeDuplicates (sortByPrice xs))"
    then have "name a \<in> name ` set (removeDuplicates xs)" using names by blast
    then obtain b where b: "b \<in> set (removeDuplicates xs)" "name a = name b" by auto
    with eq [OF a b] show "a \<in> set (removeDuplicates xs)" by simp
  next
    fix b assume b: "b \<in> set (removeDuplicates xs)"
    then have "name b \<in> name ` set (removeDuplicates (sortByPrice xs))" using names by blast
    then obtain a where a: "a \<in> set (removeDuplicates (sortByPrice xs))" "name a = name b"
      by auto
    with eq [OF a(1) b a(2)] show "b \<in> set (removeDuplicates (sortByPrice xs))" by simp
  qed
qed

lemma mset_removeDuplicates_sortByPrice:
  "mset (removeDuplicates (sortByPrice xs)) = mset (removeDuplicates xs)"
  by (simp add: set_eq_iff_mset_eq_distinct [symmetric] distinct_removeDuplicates
      set_removeDuplicates_sortByPrice)

lemma sorted_removeDuplicates_sortByPrice:
  "sorted (map price (removeDuplicates (sortByPrice xs)))"
  by (rule sorted_removeDuplicates) (simp add: sortByPrice_def)

lemma prices_sort_then_dedupe:
  "map price (removeDuplicates (sortByPrice xs)) = map price (sort_key price (removeDuplicates xs))"
proof -
  have "sort (map price (removeDuplicates xs)) = map price (removeDuplicates (sortByPrice xs))"
    by (rule properties_for_sort)
      (simp_all add: mset_removeDuplicates_sortByPrice sorted_removeDuplicates_sortByPrice)
  moreover
  have "sort (map price (removeDuplicates xs)) = map price (sort_key price (removeDuplicates xs))"
    by (rule properties_for_sort) simp_all
  ultimately show ?thesis by simp
qed

lemma sort_then_dedupe_distinct_prices:
  assumes "distinct (map price (removeDuplicates xs))"
  shows "removeDuplicates (sortByPrice xs) = sort_key price (removeDuplicates xs)"
proof -
  from assms have "inj_on price (set (removeDuplicates xs))" by (simp add: distinct_map)
  then show ?thesis
    by (intro sort_key_inj_key_eq [symmetric])
      (simp_all add: mset_removeDuplicates_sortByPrice sorted_removeDuplicates_sortByPrice)
qed

section \<open>Properties of \<open>fetchWithRetry\<close>\<close>

lemma attempt_fetch_failed:
  "failed outcome \<Longrightarrow> \<exists>e. attempt_fetch outcome = Inl e"
  by (cases outcome) (auto simp: failed_def attempt_fetch_def)

lemma attempt_fetch_ok:
  "ok r \<Longrightarrow> attempt_fetch (Responded r) = Inr r"
  by (simp add: attempt_fetch_def)

lemma failed_iff: "failed outcome \<longleftrightarrow> (\<exists>e. attempt_fetch outcome = Inl e)"
  by (cases outcome) (auto simp: failed_def attempt_fetch_def)

lemma attempt_fetch_thrown: "failed outcome \<Longrightarrow> attempt_fetch outcome = Inl (thrown outcome)"
  by (cases outcome) (auto simp: failed_def attempt_fetch_def thrown_def)

lemma fetchWithRetry_3_fail_fail_ok:
  assumes "failed (remote 0)" "failed (remote 1)" "remote 2 = Responded r" "ok r"
  shows "fetchWithRetry remote 3 delay
           = (Inr (Some r), [Call 0, Wait delay, Call 1, Wait delay, Call 2])"
proof -
  have 2: "fetchWithRetry_from remote 3 delay 2 = (Inr (Some r), [Call 2])"
    using assms(3,4) by (subst fetchWithRetry_from.simps) (simp add: attempt_fetch_ok)
  have 1: "fetchWithRetry_from remote 3 delay 1 = (Inr (Some r), [Call 1, Wait delay, Call 2])"
    using attempt_fetch_thrown [OF assms(2)] 2
    by (subst fetchWithRetry_from.simps) (simp add: numeral_2_eq_2)
  show ?thesis
    using attempt_fetch_thrown [OF assms(1)] 1
    unfolding fetchWithRetry_def
    by (subst fetchWithRetry_from.simps) simp
qed

lemma fetchWithRetry_3_fail_fail_fail:
  assumes "failed (remote 0)" "failed (remote 1)" "failed (remote 2)"
  shows "fetchWithRetry remote 3 delay
           = (Inl (thrown (remote 2)), [Call 0, Wait delay, Call 1, Wait delay, Call 2])"
proof -
  have 2: "fetchWithRetry_from remote 3 delay 2 = (Inl (thrown (remote 2)), [Call 2])"
    using attempt_fetch_thrown [OF assms(3)] by (subst fetchWithRetry_from.simps) simp
  have 1: "fetchWithRetry_from remote 3 delay 1
      = (Inl (thrown (remote 2)), [Call 1, Wait delay, Call 2])"
    using attempt_fetch_thrown [OF assms(2)] 2
    by (subst fetchWithRetry_from.simps) (simp add: numeral_2_eq_2)
  show ?thesis
    using attempt_fetch_thrown [OF assms(1)] 1
    unfolding fetchWithRetry_def
    by (subst fetchWithRetry_from.simps) simp
qed

lemma calls_simps [simp]:
  "calls [] = 0" "calls (Call k # fx) = Suc (calls fx)" "calls (Wait ms # fx) = calls fx"
  by (simp_all add: calls_def)

lemma fetchWithRetry_from_calls:
  "attempt < retries \<Longrightarrow>
     1 \<le> calls (snd (fetchWithRetry_from remote retries delay attempt))
     \<and> calls (snd (fetchWithRetry_from remote retries delay attempt)) \<le> retries - attempt
     \<and> fst (fetchWithRetry_from remote retries delay attempt) \<noteq> Inr None"
proof (induction remote retries delay attempt rule: fetchWithRetry_from.induct)
  case (1 remote retries delay attempt)
  show ?case
  proof (cases "attempt_fetch (remote attempt)")
    case (Inr response)
    with "1.prems" show ?thesis by (subst (1 2 3) fetchWithRetry_from.simps) simp
  next
    case (Inl e)
    show ?thesis
    proof (cases "attempt < retries - 1")
      case False
      with Inl "1.prems" show ?thesis by (subst (1 2 3) fetchWithRetry_from.simps) simp
    next
      case True
      then have "attempt + 1 < retries" by simp
      from "1.IH" [OF "1.prems" Inl True this] True Inl "1.prems" show ?thesis
        by (subst (1 2 3) fetchWithRetry_from.simps) (auto split: prod.splits)
    qed
  qed
qed

lemma fetchWithRetry_calls:
  "1 \<le> calls (snd (fetchWithRetry remote 3 delay))
   \<and> calls (snd (fetchWithRetry remote 3 delay)) \<le> 3
   \<and> fst (fetchWithRetry remote 3 delay) \<noteq> Inr None"
  using fetchWithRetry_from_calls [of 0 3 remote delay] by (simp add: fetchWithRetry_def)

section \<open>Properties of the batch fetcher\<close>

lemma fetchListing_effects: "snd (fetchListing r) = snd (fetchWithRetry r 3 1000)"
  by (simp add: fetchListing_def split: prod.splits sum.splits option.splits body.splits)

lemma fetchListing_listings: "length (fst (fetchListing r)) \<le> 1"
  by (simp add: fetchListing_def split: prod.splits sum.splits option.splits body.splits)

lemma sum_list_between:
  "\<forall>x \<in> set xs. lo \<le> f x \<and> f x \<le> hi \<Longrightarrow>
     lo * length xs \<le> sum_list (map f xs) \<and> sum_list (map f xs) \<le> hi * length xs"
  for lo hi :: nat
proof (induction xs)
  case Nil
  then show ?case by simp
next
  case (Cons x xs)
  then have "lo \<le> f x" "f x \<le> hi"
    "lo * length xs \<le> sum_list (map f xs)" "sum_list (map f xs) \<le> hi * length xs"
    by simp_all
  then show ?case by simp
qed

lemma js_slice_window:
  assumes "0 \<le> i" "i < int (length xs)" "0 \<le> m"
  shows "js_slice xs i (js_add (Some i) (Some m)) = take (nat m) (drop (nat i) xs)"
proof -
  have k: "js_slice_bound (length xs) i = nat i"
    using assms by (simp add: js_slice_bound_def)
  have f: "js_slice_bound (length xs) (i + m) = min (nat i + nat m) (length xs)"
    using assms by (simp add: js_slice_bound_def nat_add_distrib)
  have "take (min (nat i + nat m) (length xs) - nat i) (drop (nat i) xs)
          = take (nat m) (drop (nat i) xs)"
  proof (cases "nat i + nat m \<le> length xs")
    case True
    then show ?thesis by (simp add: min_def)
  next
    case False
    then show ?thesis by (simp add: min_def)
  qed
  with k f show ?thesis by (simp add: js_slice_def js_add_def)
qed

lemma fetchWave_done:
  assumes "fetchWave remote ids w i = WaveDone wv listings"
  shows "\<exists>response.
    fetchWithRetry (remote w 0) 3 1000 = (Inr (Some response), probe_effects wv)
    \<and> rateLimitRemaining wv = ratelimit_remaining response
    \<and> batchSize wv = js_min (ratelimit_remaining response) 60
    \<and> wave_cursor wv = i \<and> probe_id wv = js_index ids i \<and> cooldown wv = False
    \<and> wave_ids wv = js_slice ids i (js_add (Some i) (batchSize wv))
    \<and> batch wv = map (\<lambda>(j, ident). (ident, snd (fetchListing (remote w (Suc j)))))
                   (enumerate 0 (wave_ids wv))
    \<and> listings = concat (map (\<lambda>(j, ident). fst (fetchListing (remote w (Suc j))))
                   (enumerate 0 (wave_ids wv)))"
proof -
  from assms obtain response fx where
    p: "fetchWithRetry (remote w 0) 3 1000 = (Inr (Some response), fx)"
    by (auto simp: fetchWave_def split: prod.splits sum.splits option.splits)
  let ?slice = "js_slice ids i (js_add (Some i) (js_min (ratelimit_remaining response) 60))"
  from assms p have wv: "wv = \<lparr>wave_cursor = i, probe_id = js_index ids i, probe_effects = fx,
       rateLimitRemaining = ratelimit_remaining response,
       batchSize = js_min (ratelimit_remaining response) 60,
       batch = map (\<lambda>(ident, listings, fx). (ident, fx))
                 (map (\<lambda>(j, ident). (ident, fetchListing (remote w (Suc j))))
                    (enumerate 0 ?slice)),
       cooldown = False\<rparr>"
    and ls: "listings = concat (map (\<lambda>(ident, listings, fx). listings)
                 (map (\<lambda>(j, ident). (ident, fetchListing (remote w (Suc j))))
                    (enumerate 0 ?slice)))"
    by (simp_all add: fetchWave_def Let_def)
  have ids: "wave_ids wv = ?slice"
    by (simp add: wv wave_ids_def comp_def case_prod_unfold map_snd_enumerate)
  show ?thesis
  proof (intro exI [of _ response] conjI)
    show "fetchWithRetry (remote w 0) 3 1000 = (Inr (Some response), probe_effects wv)"
      by (simp add: p wv)
    show "wave_ids wv = js_slice ids i (js_add (Some i) (batchSize wv))"
      using ids by (simp add: wv)
    show "batch wv = map (\<lambda>(j, ident). (ident, snd (fetchListing (remote w (Suc j)))))
                   (enumerate 0 (wave_ids wv))"
      unfolding ids by (simp add: wv comp_def case_prod_unfold)
    show "listings = concat (map (\<lambda>(j, ident). fst (fetchListing (remote w (Suc j))))
                   (enumerate 0 (wave_ids wv)))"
      unfolding ids by (simp add: ls comp_def case_prod_unfold)
  qed (simp_all add: wv)
qed

lemma js_index_inside: "0 \<le> i \<Longrightarrow> i < int (length xs) \<Longrightarrow> js_index xs i = Some (xs ! nat i)"
  by (simp add: js_index_def)

lemma wave_calls_bounds:
  assumes "fetchWave remote ids w i = WaveDone wv listings"
  shows "1 \<le> calls (probe_effects wv) \<and> calls (probe_effects wv) \<le> 3
         \<and> 1 + length (batch wv) \<le> wave_calls wv
         \<and> wave_calls wv \<le> 3 * (1 + length (batch wv))
         \<and> length listings \<le> length (batch wv)"
proof -
  from fetchWave_done [OF assms] obtain response where
    p: "fetchWithRetry (remote w 0) 3 1000 = (Inr (Some response), probe_effects wv)"
    and b: "batch wv = map (\<lambda>(j, ident). (ident, snd (fetchListing (remote w (Suc j)))))
                   (enumerate 0 (wave_ids wv))"
    and l: "listings = concat (map (\<lambda>(j, ident). fst (fetchListing (remote w (Suc j))))
                   (enumerate 0 (wave_ids wv)))"
    by blast
  from fetchWithRetry_calls [of "remote w 0" 1000] p
  have pc: "1 \<le> calls (probe_effects wv)" "calls (probe_effects wv) \<le> 3" by simp_all
  have "\<forall>x \<in> set (batch wv). 1 \<le> (\<lambda>(ident, fx). calls fx) x \<and> (\<lambda>(ident, fx). calls fx) x \<le> 3"
    using fetchWithRetry_calls by (auto simp: b fetchListing_effects)
  from sum_list_between [OF this]
  have bc: "length (batch wv) \<le> sum_list (map (\<lambda>(ident, fx). calls fx) (batch wv))"
    "sum_list (map (\<lambda>(ident, fx). calls fx) (batch wv)) \<le> 3 * length (batch wv)"
    by simp_all
  have "length (concat (map f xs)) \<le> length xs" if "\<forall>x \<in> set xs. length (f x) \<le> 1"
    for f :: "nat \<times> ident \<Rightarrow> rat listing list" and xs
    using that by (induction xs) auto
  moreover have "\<forall>x \<in> set (enumerate 0 (wave_ids wv)).
      length ((\<lambda>(j, ident). fst (fetchListing (remote w (Suc j)))) x) \<le> 1"
    using fetchListing_listings by (simp add: case_prod_unfold)
  ultimately have "length listings \<le> length (batch wv)"
    unfolding l b by fastforce
  with pc bc show ?thesis by (simp add: wave_calls_def)
qed

lemma fetchWithRetry_steady:
  "fetchWithRetry (steady_remote b w s) 3 1000 =
     (Inr (Some \<lparr>status = 200, ratelimit_remaining = Some b,
                body = ListingJson (sample ''Listing'' 10 ''/sell/item'')\<rparr>), [Call 0])"
  unfolding fetchWithRetry_def
  by (subst fetchWithRetry_from.simps) (simp add: steady_remote_def attempt_fetch_def ok_def)

lemma fetchListing_steady:
  "fetchListing (steady_remote b w s) = ([sample ''Listing'' 10 ''/sell/item''], [Call 0])"
  by (simp add: fetchListing_def fetchWithRetry_steady)

lemma fetchWave_window:
  assumes "fetchWave remote ids w i = WaveDone wv listings"
    and "0 \<le> i" "i < int (length ids)" "rateLimitRemaining wv = Some r" "0 \<le> r"
  shows "batchSize wv = Some (min r 60)"
    and "wave_ids wv = take (nat (min r 60)) (drop (nat i) ids)"
proof -
  from fetchWave_done [OF assms(1)] obtain response :: response where
    r: "rateLimitRemaining wv = ratelimit_remaining response"
    and s: "batchSize wv = js_min (ratelimit_remaining response) 60"
    and ids: "wave_ids wv = js_slice ids i (js_add (Some i) (batchSize wv))"
    by blast
  from r assms(4) have "ratelimit_remaining response = Some r" by simp
  with s show size: "batchSize wv = Some (min r 60)" by (simp add: js_min_def)
  from assms(5) have m: "0 \<le> min r 60" by simp
  from ids size js_slice_window [OF assms(2,3) m]
  show "wave_ids wv = take (nat (min r 60)) (drop (nat i) ids)" by simp
qed

lemma probe_budget_wave:
  assumes "probe_budget remote w = Some b"
  shows "\<exists>wv listings. fetchWave remote ids w i = WaveDone wv listings
           \<and> rateLimitRemaining wv = b"
proof -
  from assms obtain response :: response and fx where
    "fetchWithRetry (remote w 0) 3 1000 = (Inr (Some response), fx)"
    "ratelimit_remaining response = b"
    by (auto simp: probe_budget_def split: sum.splits option.splits prod.splits)
      (metis prod.collapse)
  then show ?thesis by (simp add: fetchWave_def Let_def)
qed

lemma wave_ids_cooldown [simp]: "wave_ids (wv\<lparr>cooldown := c\<rparr>) = wave_ids wv"
  by (simp add: wave_ids_def)

lemma fetchLoop_step:
  assumes "cursor s = Some i" "0 \<le> i" "i < int (length ids)"
    and "probe_budget remote w = Some (Some r)" "0 \<le> r"
  shows "\<exists>s'. fetchLoop remote ids w s = fetchLoop remote ids (Suc w) s'
           \<and> cursor s' = Some (i + min r 60)
           \<and> concat (map wave_ids (waves s'))
               = concat (map wave_ids (waves s)) @ take (nat (min r 60)) (drop (nat i) ids)"
proof -
  from probe_budget_wave [OF assms(4)] obtain wv listings where
    wv: "fetchWave remote ids w i = WaveDone wv listings" "rateLimitRemaining wv = Some r"
    by blast
  note win = fetchWave_window [OF wv(1) assms(2,3) wv(2) assms(5)]
  let ?again = "i + min r 60 < int (length ids)"
  let ?s' = "\<lparr>cursor = Some (i + min r 60),
              totalRequestsMade = js_add (totalRequestsMade s) (Some (min r 60)),
              pushed = pushed s @ listings,
              waves = waves s @ [wv\<lparr>cooldown := ?again\<rparr>]\<rparr>"
  have "fetchLoop remote ids w s = fetchLoop remote ids (Suc w) ?s'"
    using assms(1,3) wv(1) win(1)
    by (subst fetchLoop.simps) (simp add: js_add_def Let_def)
  moreover have "concat (map wave_ids (waves ?s'))
      = concat (map wave_ids (waves s)) @ take (nat (min r 60)) (drop (nat i) ids)"
    using win(2) by simp
  ultimately show ?thesis by (intro exI [of _ ?s']) simp
qed

lemma fetchLoop_finished:
  assumes "cursor s = Some i" "int (length ids) \<le> i"
  shows "fetchLoop remote ids w s = Some (Completed, s)"
  using assms by (subst fetchLoop.simps) simp

lemma fetchLoop_terminates:
  assumes nonneg: "\<forall>w. \<exists>r. probe_budget remote w = Some (Some r) \<and> 0 \<le> r"
    and again: "\<forall>w. \<exists>w' r. w \<le> w' \<and> probe_budget remote w' = Some (Some r) \<and> 0 < r"
  shows "cursor s = Some i \<Longrightarrow> 0 \<le> i \<Longrightarrow>
     \<exists>s'. fetchLoop remote ids w s = Some (Completed, s')
       \<and> concat (map wave_ids (waves s')) = concat (map wave_ids (waves s)) @ drop (nat i) ids
       \<and> (\<exists>n. cursor s' = Some n \<and> int (length ids) \<le> n)"
proof (induction "length ids - nat i" arbitrary: i w s rule: less_induct)
  case less
  show ?case
  proof (cases "i < int (length ids)")
    case False
    with less.prems fetchLoop_finished [of s i ids remote w] show ?thesis by auto
  next
    case True
    have advance: "\<exists>s'. fetchLoop remote ids v t = Some (Completed, s')
        \<and> concat (map wave_ids (waves s')) = concat (map wave_ids (waves t)) @ drop (nat i) ids
        \<and> (\<exists>n. cursor s' = Some n \<and> int (length ids) \<le> n)"
      if t: "cursor t = Some i" and b: "probe_budget remote v = Some (Some r)" and r: "0 < r"
      for v t r
    proof -
      from r have r0: "0 \<le> r" by simp
      from fetchLoop_step [OF t less.prems(2) True b r0] obtain t' where
        t': "fetchLoop remote ids v t = fetchLoop remote ids (Suc v) t'"
        "cursor t' = Some (i + min r 60)"
        "concat (map wave_ids (waves t'))
           = concat (map wave_ids (waves t)) @ take (nat (min r 60)) (drop (nat i) ids)"
        by blast
      from r have m: "0 < min r 60" by simp
      with less.prems(2) True have "length ids - nat (i + min r 60) < length ids - nat i"
        by linarith
      from less.hyps [OF this t'(2), of "Suc v"] less.prems(2) m obtain s' where
        s': "fetchLoop remote ids (Suc v) t' = Some (Completed, s')"
        "concat (map wave_ids (waves s'))
           = concat (map wave_ids (waves t')) @ drop (nat (i + min r 60)) ids"
        "\<exists>n. cursor s' = Some n \<and> int (length ids) \<le> n"
        by auto
      from less.prems(2) m have "nat (i + min r 60) = nat (min r 60) + nat i"
        by (simp add: nat_add_distrib)
      then have "take (nat (min r 60)) (drop (nat i) ids) @ drop (nat (i + min r 60)) ids
          = drop (nat i) ids"
        by (metis append_take_drop_id drop_drop)
      with t' s' show ?thesis by simp
    qed
    have wait: "\<exists>s'. fetchLoop remote ids v t = Some (Completed, s')
        \<and> concat (map wave_ids (waves s')) = concat (map wave_ids (waves t)) @ drop (nat i) ids
        \<and> (\<exists>n. cursor s' = Some n \<and> int (length ids) \<le> n)"
      if "cursor t = Some i" "probe_budget remote (v + d) = Some (Some r)" "0 < r"
      for d v t r
      using that
    proof (induction d arbitrary: v t)
      case 0
      then show ?case using advance [of t v r] by simp
    next
      case (Suc d)
      from nonneg obtain r0 where r0: "probe_budget remote v = Some (Some r0)" "0 \<le> r0"
        by blast
      show ?case
      proof (cases "0 < r0")
        case True
        with advance [OF Suc.prems(1) r0(1)] show ?thesis by simp
      next
        case False
        with r0 have z: "r0 = 0" by simp
        from fetchLoop_step [OF Suc.prems(1) less.prems(2) \<open>i < int (length ids)\<close> r0]
        obtain t' where t': "fetchLoop remote ids v t = fetchLoop remote ids (Suc v) t'"
          "cursor t' = Some i"
          "concat (map wave_ids (waves t')) = concat (map wave_ids (waves t))"
          using z by auto
        from Suc.prems(2) have "probe_budget remote (Suc v + d) = Some (Some r)" by simp
        from Suc.IH [OF t'(2) this Suc.prems(3)] t' show ?thesis by simp
      qed
    qed
    from again obtain w' r where
      "w \<le> w'" "probe_budget remote w' = Some (Some r)" "0 < r" by blast
    with wait [of s "w" "w' - w" r] less.prems(1) show ?thesis by simp
  qed
qed

lemma fetchLoop_zero_budget:
  assumes "fetchLoop remote ids w s = Some y"
  shows "\<not> (remote = steady_remote 0 \<and> ids = [''101''] \<and> cursor s = Some 0)"
proof (rule fetchLoop.raw_induct
    [where P = "\<lambda>remote ids w s y.
       \<not> (remote = steady_remote 0 \<and> ids = [''101''] \<and> cursor s = Some 0)", OF _ assms])
  fix f :: "remote \<Rightarrow> ident list \<Rightarrow> nat \<Rightarrow> fetch_state \<Rightarrow> (fetch_end \<times> fetch_state) option"
  fix remote ids w s y
  assume IH: "\<And>remote ids w s y. f remote ids w s = Some y \<Longrightarrow>
      \<not> (remote = steady_remote 0 \<and> ids = [''101''] \<and> cursor s = Some 0)"
  assume body: "(case cursor s of
        None \<Rightarrow> Some (Completed, s)
      | Some i \<Rightarrow>
          if i < int (length ids) then
            (case fetchWave remote ids w i of
               ProbeThrew error effects \<Rightarrow> Some (ProbeFailed error effects, s)
             | WaveDone wv listings \<Rightarrow>
                 (let i' = js_add (Some i) (batchSize wv);
                      again = (case i' of None \<Rightarrow> False
                               | Some n \<Rightarrow> n < int (length ids))
                  in f remote ids (Suc w)
                       \<lparr>cursor = i',
                        totalRequestsMade = js_add (totalRequestsMade s) (batchSize wv),
                        pushed = pushed s @ listings,
                        waves = waves s @ [wv\<lparr>cooldown := again\<rparr>]\<rparr>))
          else Some (Completed, s)) = Some y"
  show "\<not> (remote = steady_remote 0 \<and> ids = [''101''] \<and> cursor s = Some 0)"
  proof
    assume a: "remote = steady_remote 0 \<and> ids = [''101''] \<and> cursor s = Some 0"
    have wv: "fetchWave (steady_remote 0) [''101''] w 0 =
      WaveDone \<lparr>wave_cursor = 0, probe_id = Some ''101'', probe_effects = [Call 0],
             rateLimitRemaining = Some 0, batchSize = Some 0,
             batch = [], cooldown = False\<rparr> []"
      by (simp add: fetchWave_def fetchWithRetry_steady js_min_def js_add_def
          js_slice_def js_slice_bound_def js_index_def Let_def)
    from body a wv obtain s' where
      "f (steady_remote 0) [''101''] (Suc w) s' = Some y" "cursor s' = Some 0"
      by (auto simp: js_add_def Let_def)
    with IH show False by blast
  qed
qed

lemma probe_budget_steady: "probe_budget (steady_remote b) w = Some (Some b)"
  by (simp add: probe_budget_def fetchWithRetry_steady)

lemmas fetch_eval = fetchWave_def fetchWithRetry_steady fetchListing_steady js_min_def
  js_add_def js_slice_def js_slice_bound_def js_index_def enumerate_eq_zip Let_def

section \<open>Properties of the pipeline\<close>

lemma js_round_of_int [simp]: "js_round (of_int n) = n"
  unfolding js_round_def by (rule floor_unique) simp_all

lemma js_round_numeral [simp]: "js_round (numeral n) = numeral n"
  using js_round_of_int [of "numeral n"] by simp

lemma js_round_neg_numeral [simp]: "js_round (- numeral n) = - numeral n"
  using js_round_of_int [of "- numeral n"] by simp

lemma js_round_0 [simp]: "js_round 0 = 0"
  using js_round_of_int [of 0] by simp

lemma js_round_1 [simp]: "js_round 1 = 1"
  using js_round_of_int [of 1] by simp

lemma js_round_of_nat [simp]: "js_round (of_nat n) = int n"
  using js_round_of_int [of "int n"] by simp

lemma js_round_divide_numeral [simp]:
  "js_round (numeral a / numeral b) = (2 * numeral a + numeral b) div (2 * numeral b)"
proof -
  have "numeral a / numeral b + 1 / 2
      = (of_int (2 * numeral a + numeral b) / of_int (2 * numeral b) :: rat)"
    by (simp add: field_simps)
  then show ?thesis unfolding js_round_def by (simp only: floor_divide_of_int_eq)
qed

lemma pushes_simps [simp]:
  "pushes [] = []"
  "pushes (Push l # acts) = l # pushes acts"
  "pushes (Send ev # acts) = pushes acts"
  "pushes (UpdateProgress d # acts) = pushes acts"
  by (simp_all add: pushes_def List.map_filter_simps)

lemma pushes_append [simp]: "pushes (xs @ ys) = pushes xs @ pushes ys"
  by (simp add: pushes_def List.map_filter_def)

lemma pushes_map_Push [simp]: "pushes (map Push ls) = ls"
  by (induction ls) simp_all

lemma accumulator_updateProgress [simp]: "accumulator (updateProgress d r) = accumulator r"
  by (simp add: updateProgress_def Let_def)

lemma accumulator_perform: "accumulator (perform r a) = accumulator r @ pushes [a]"
  by (cases a) simp_all

lemma accumulator_foldl_perform:
  "accumulator (foldl perform r acts) = accumulator r @ pushes acts"
proof (induction acts arbitrary: r)
  case Nil
  then show ?case by simp
next
  case (Cons a acts)
  show ?case by (cases a) (simp_all add: Cons.IH)
qed

lemma pushes_interleave_right_empty:
  "pushes ys = [] \<Longrightarrow> pushes (interleave sch xs ys) = pushes xs"
proof (induction sch xs ys rule: interleave.induct)
  case (3 x xs y ys)
  then show ?case using pushes_append [of "x # xs" "y # ys"]
    by (simp del: pushes_simps pushes_append)
next
  case (4 sch x xs y ys)
  then show ?case by (cases x) simp_all
next
  case (5 sch x xs y ys)
  then show ?case by (cases y) simp_all
qed simp_all

lemma mset_pushes_interleave:
  "mset (pushes (interleave sch xs ys)) = mset (pushes xs) + mset (pushes ys)"
proof (induction sch xs ys rule: interleave.induct)
  case (3 x xs y ys)
  show ?case using pushes_append [of "x # xs" "y # ys"]
    by (simp del: pushes_simps pushes_append)
next
  case (4 sch x xs y ys)
  then show ?case by (cases x) simp_all
next
  case (5 sch x xs y ys)
  then show ?case by (cases y) simp_all
qed simp_all

lemma bandcampTasks_failed:
  "bandcampTasks e = (bacts, False) \<Longrightarrow> pushes bacts = []"
  by (auto simp: bandcampTasks_def split: option.splits)

lemma listingData_collect_step:
  "listingData (fst (collect_step pages st i)) = listingData (fst st)"
  by (cases st) (simp add: collect_step_def Let_def)

lemma listingData_collectMarketplaceIDs:
  "listingData (fst (collectMarketplaceIDs pages g)) = listingData g"
proof -
  have "listingData (fst (foldl (collect_step pages) st is)) = listingData (fst st)" for st "is"
    by (induction "is" arbitrary: st) (simp_all add: listingData_collect_step)
  then show ?thesis by (simp add: collectMarketplaceIDs_def)
qed

lemma listingData_discogsTasks:
  assumes "discogsTasks e g = Some (gd, dacts, dok)"
  shows "listingData gd = listingData g"
proof -
  obtain g1 a1 where w: "fetchWantlist (want_response e) g = (g1, a1)" by force
  then have g1: "listingData g1 = listingData g"
    by (auto simp: fetchWantlist_def split: option.splits)
  show ?thesis
  proof (cases "collectReleaseIDs g1")
    case (Inl err)
    with assms w g1 show ?thesis by (auto simp: discogsTasks_def Let_def)
  next
    case (Inr p)
    obtain g2 a2 where p: "p = (g2, a2)" by force
    with Inr have g2: "listingData g2 = listingData g1"
      by (auto simp: collectReleaseIDs_def split: option.splits)
    obtain g3 a3 where c: "collectMarketplaceIDs (sale_page e) g2 = (g3, a3)" by force
    with listingData_collectMarketplaceIDs [of "sale_page e" g2]
    have g3: "listingData g3 = listingData g2" by simp
    from assms w Inr p c have "gd = g3"
      by (auto simp: discogsTasks_def Let_def split: option.splits fetch_end.splits)
    with g1 g2 g3 show ?thesis by simp
  qed
qed

lemma main_outcome:
  assumes "checkForEnvironmentVariables e" "main e g = Some (r, g', evs)"
  shows "\<exists>gd dacts dok bacts bok.
      discogsTasks e g = Some (gd, dacts, dok) \<and> bandcampTasks e = (bacts, bok)
      \<and> r = Some \<lparr>results =
                    (if dok \<or> bok
                     then rankedResults
                            (listingData g @ pushes (interleave (schedule e) dacts bacts))
                     else []),
                  discogsSuccess = dok, bandcampSuccess = bok\<rparr>
      \<and> listingData g' =
          (if dok \<or> bok
           then sortByPrice (listingData g @ pushes (interleave (schedule e) dacts bacts))
           else listingData g @ pushes (interleave (schedule e) dacts bacts))"
proof -
  from assms obtain gd dacts dok where d: "discogsTasks e g = Some (gd, dacts, dok)"
    by (cases "discogsTasks e g") (auto simp: main_def)
  obtain bacts bok where b: "bandcampTasks e = (bacts, bok)" by force
  note ld = listingData_discogsTasks [OF d]
  let ?r = "foldl perform \<lparr>accumulator = listingData gd, completedSteps = 0, sent = []\<rparr>
              (interleave (schedule e) dacts bacts)"
  have acc: "accumulator ?r = listingData g @ pushes (interleave (schedule e) dacts bacts)"
    by (simp add: accumulator_foldl_perform ld)
  show ?thesis
  proof (cases "dok \<or> bok")
    case True
    with assms d b have "r = Some \<lparr>results = rankedResults (accumulator ?r),
        discogsSuccess = dok, bandcampSuccess = bok\<rparr>"
      and "listingData g' = sortByPrice (accumulator ?r)"
      by (auto simp: main_def Let_def rankedResults_def simp del: foldl_Cons)
    with d b True show ?thesis unfolding acc
      by (intro exI [of _ gd] exI [of _ dacts] exI [of _ dok] exI [of _ bacts] exI [of _ bok])
        simp
  next
    case False
    with assms d b have "r = Some \<lparr>results = [],
        discogsSuccess = dok, bandcampSuccess = bok\<rparr>"
      and "listingData g' = accumulator ?r"
      by (auto simp: main_def Let_def simp del: foldl_Cons)
    with d b False show ?thesis unfolding acc
      by (intro exI [of _ gd] exI [of _ dacts] exI [of _ dok] exI [of _ bacts] exI [of _ bok])
        simp
  qed
qed

lemmas env_simps = env_base_def env_missing_def env_partial_def env_overtaken_def
  env_storefront_only_def env_storefront_down_def

lemmas stage_simps = fetchWantlist_def collectReleaseIDs_def collectMarketplaceIDs_def
  collect_step_def bandcampTasks_def discogsTasks_def Let_def List.map_filter_simps
  upt_conv_Cons

lemmas run_simps = main_def checkForEnvironmentVariables_def truthy_def updateProgress_def
  totalSteps_def Let_def sortByPrice_def removeDuplicates_def dedupe_step_def trimResults_def
  sample_def initial_globals_def

lemma main_env_missing: "main env_missing g = Some (None, g, [])"
  by (simp add: main_def checkForEnvironmentVariables_def truthy_def env_simps)

lemma fetch_first_wave_only:
  "fetchMarketplaceListingData first_wave_only [''101'', ''102'']
     = Some (ProbeFailed (FetchRejected ''timeout'')
               [Call 0, Wait 1000, Call 1, Wait 1000, Call 2],
             \<lparr>cursor = Some 1, totalRequestsMade = Some 1,
              pushed = [sample ''Kind of Blue'' 5 ''/sell/item/101''],
              waves = [\<lparr>wave_cursor = 0, probe_id = Some ''101'', probe_effects = [Call 0],
                        rateLimitRemaining = Some 1, batchSize = Some 1,
                        batch = [(''101'', [Call 0])], cooldown = True\<rparr>]\<rparr>)"
proof -
  have ok0: "fetchWithRetry (first_wave_only 0 s) 3 1000
      = (Inr (Some \<lparr>status = 200, ratelimit_remaining = Some 1,
                      body = ListingJson (sample ''Kind of Blue'' 5 ''/sell/item/101'')\<rparr>),
         [Call 0])" for s
    unfolding fetchWithRetry_def
    by (subst fetchWithRetry_from.simps) (simp add: first_wave_only_def attempt_fetch_def ok_def)
  have silent: "first_wave_only (Suc 0) 0 = (\<lambda>k. Rejected ''timeout'')"
    by (simp add: fun_eq_iff first_wave_only_def)
  have "failed ((\<lambda>k. Rejected ''timeout'') k)" for k :: nat
    by (simp add: failed_def)
  from fetchWithRetry_3_fail_fail_fail [OF this this this, where delay = 1000]
  have down: "fetchWithRetry (first_wave_only (Suc 0) 0) 3 1000
      = (Inl (FetchRejected ''timeout''), [Call 0, Wait 1000, Call 1, Wait 1000, Call 2])"
    unfolding silent by (simp add: thrown_def attempt_fetch_def)
  show ?thesis
    unfolding fetchMarketplaceListingData_def fetch_start_def
    apply (subst fetchLoop.simps)
    apply (simp add: fetchWave_def ok0 fetchListing_def js_min_def js_add_def js_slice_def
        js_slice_bound_def js_index_def enumerate_eq_zip Let_def)
    apply (subst fetchLoop.simps)
    apply (simp add: fetchWave_def down)
    done
qed

lemma discogs_env_partial:
  "discogsTasks env_partial initial_globals
     = Some (\<lparr>releaseIDs = [''r1''], marketplaceIDs = [''101'', ''102''], listingData = [],
              wantList = Some [''r1''], filteredListings = [], uniqueListings = []\<rparr>,
             [Send (Message ''Fetching wantlist''), Send (Progress 20 ''Fetched wantlist''),
              UpdateProgress ''Fetched wantlist'', Send (Message ''Collecting release IDs''),
              Send (Progress 40 ''Collected release IDs''),
              UpdateProgress ''Collected release IDs'',
              Send (Message ''Collecting marketplace IDs''), Send (ProgressCount 60 1 1),
              UpdateProgress ''Collected marketplace IDs'',
              Send (Message ''Fetching marketplace listing data''),
              Push (sample ''Kind of Blue'' 5 ''/sell/item/101'')],
             False)"
  by (simp add: stage_simps env_simps initial_globals_def fetch_first_wave_only)

lemma main_env_partial:
  "returned (main env_partial initial_globals)
     = Some \<lparr>results = [sample ''Kind of Blue'' 5 ''/sell/item/101'',
                         sample ''Blue by Joni'' 12 ''https://joni.example/album/blue''],
              discogsSuccess = False, bandcampSuccess = True\<rparr>"
  unfolding main_def discogs_env_partial
  by (simp add: run_simps env_simps bandcampTasks_def List.map_filter_simps returned_def)

lemma pushes_interleave_left_empty:
  "pushes xs = [] \<Longrightarrow> pushes (interleave sch xs ys) = pushes ys"
proof (induction sch xs ys rule: interleave.induct)
  case (3 x xs y ys)
  then show ?case using pushes_append [of "x # xs" "y # ys"]
    by (simp del: pushes_simps pushes_append)
next
  case (4 sch x xs y ys)
  then show ?case by (cases x) simp_all
next
  case (5 sch x xs y ys)
  then show ?case by (cases y) simp_all
qed simp_all

lemma main_settles:
  assumes "checkForEnvironmentVariables e" "discogsTasks e g = Some d"
  shows "\<exists>r g' evs. main e g = Some (r, g', evs)"
proof -
  obtain gd dacts dok where "d = (gd, dacts, dok)" by (cases d) auto
  moreover obtain bacts bok where "bandcampTasks e = (bacts, bok)" by force
  ultimately show ?thesis using assms by (simp add: main_def Let_def del: foldl_Cons)
qed

lemma discogs_no_wants:
  "want_response e = Some None \<Longrightarrow>
     discogsTasks e g
       = Some (g\<lparr>wantList := None\<rparr>,
               [Send (Message ''Fetching wantlist''), Send (Progress 20 ''Fetched wantlist''),
                UpdateProgress ''Fetched wantlist'', Send (Message ''Collecting release IDs'')],
               False)"
  by (simp add: discogsTasks_def fetchWantlist_def collectReleaseIDs_def)

lemma returned_main_no_wants:
  assumes "checkForEnvironmentVariables e" "want_response e = Some None"
    and "bandcampTasks e = (bacts, True)"
  shows "returned (main e g)
           = Some \<lparr>results = rankedResults (listingData g @ pushes bacts),
                    discogsSuccess = False, bandcampSuccess = True\<rparr>
         \<and> listingData (globals_after (main e g) g)
           = sortByPrice (listingData g @ pushes bacts)"
proof -
  note d = discogs_no_wants [OF assms(2), of g]
  from main_settles [OF assms(1) d] obtain r g' evs where m: "main e g = Some (r, g', evs)"
    by blast
  have "pushes (interleave (schedule e)
      [Send (Message ''Fetching wantlist''), Send (Progress 20 ''Fetched wantlist''),
       UpdateProgress ''Fetched wantlist'', Send (Message ''Collecting release IDs'')] bacts)
      = pushes bacts"
    by (rule pushes_interleave_left_empty) simp
  with main_outcome [OF assms(1) m] d assms(3) m show ?thesis
    by (auto simp: returned_def globals_after_def)
qed

lemma check_env_base [simp]:
  "checkForEnvironmentVariables env_base" "checkForEnvironmentVariables env_partial"
  "checkForEnvironmentVariables env_storefront_only"
  "checkForEnvironmentVariables env_storefront_down"
  "checkForEnvironmentVariables env_overtaken"
  by (simp_all add: checkForEnvironmentVariables_def truthy_def env_simps)

lemma bandcamp_env_base: "bandcampTasks env_base
    = ([Send (Message ''Integrating Bandcamp data''),
        UpdateProgress ''Integrated Bandcamp data''], True)"
  by (simp add: bandcampTasks_def env_simps List.map_filter_simps)

lemma bandcamp_env_storefront_only: "bandcampTasks env_storefront_only
    = ([Send (Message ''Integrating Bandcamp data''),
        Push (sample ''Blue by Joni'' 12 ''https://joni.example/album/blue''),
        UpdateProgress ''Integrated Bandcamp data''], True)"
  by (simp add: bandcampTasks_def env_simps List.map_filter_simps)

lemma rankedResults_single [simp]: "rankedResults [l] = [l]"
  by (simp add: rankedResults_def sortByPrice_def removeDuplicates_def dedupe_step_def
      trimResults_def)

lemma rankedResults_Nil [simp]: "rankedResults [] = []"
  by (simp add: rankedResults_def sortByPrice_def removeDuplicates_def trimResults_def)

lemma discogs_env_storefront_down:
  "discogsTasks env_storefront_down initial_globals
     = Some (\<lparr>releaseIDs = [''r1''], marketplaceIDs = [''101''], listingData = [],
              wantList = Some [''r1''], filteredListings = [], uniqueListings = []\<rparr>,
             [Send (Message ''Fetching wantlist''), Send (Progress 20 ''Fetched wantlist''),
              UpdateProgress ''Fetched wantlist'', Send (Message ''Collecting release IDs''),
              Send (Progress 40 ''Collected release IDs''),
              UpdateProgress ''Collected release IDs'',
              Send (Message ''Collecting marketplace IDs''), Send (ProgressCount 60 1 1),
              UpdateProgress ''Collected marketplace IDs'',
              Send (Message ''Fetching marketplace listing data''),
              Push (sample ''Listing'' 10 ''/sell/item''),
              UpdateProgress ''Fetched marketplace data''],
             True)"
proof -
  have "fetchMarketplaceListingData (steady_remote 1) [''101'']
     = Some (Completed,
             \<lparr>cursor = Some 1, totalRequestsMade = Some 1,
              pushed = [sample ''Listing'' 10 ''/sell/item''],
              waves = [\<lparr>wave_cursor = 0, probe_id = Some ''101'', probe_effects = [Call 0],
                        rateLimitRemaining = Some 1, batchSize = Some 1,
                        batch = [(''101'', [Call 0])], cooldown = False\<rparr>]\<rparr>)"
    unfolding fetchMarketplaceListingData_def fetch_start_def
    apply (subst fetchLoop.simps)
    apply (simp add: fetch_eval)
    apply (subst fetchLoop.simps)
    apply simp
    done
  then show ?thesis
    by (simp add: stage_simps env_simps initial_globals_def)
qed

lemma after_storefront_only:
  "listingData (globals_after (main env_storefront_only initial_globals) initial_globals)
     = [sample ''Blue by Joni'' 12 ''https://joni.example/album/blue'']"
proof -
  have w: "want_response env_storefront_only = Some None" by (simp add: env_simps)
  from returned_main_no_wants [OF check_env_base(3) w bandcamp_env_storefront_only,
      of initial_globals]
  show ?thesis by (simp add: initial_globals_def sortByPrice_def)
qed

section \<open>Properties of the progress events\<close>

lemma percents_append [simp]: "percents (xs @ ys) = percents xs @ percents ys"
  by (simp add: percents_def List.map_filter_def)

lemma percents_single: "percents [ev] = (case percent ev of None \<Rightarrow> [] | Some p \<Rightarrow> [p])"
  by (simp add: percents_def List.map_filter_def split: option.splits)

lemma percents_Nil [simp]: "percents [] = []"
  by (simp add: percents_def List.map_filter_def)

lemma step_percent: "js_round ((of_nat k / of_nat totalSteps) * 100) = 20 * int k"
proof -
  have "(of_nat k / of_nat totalSteps) * 100 = (of_int (20 * int k) :: rat)"
    by (simp add: totalSteps_def)
  then show ?thesis by (simp only: js_round_of_int)
qed

lemma perform_update:
  "completedSteps (updateProgress d r) = completedSteps r + 1"
  "percents (sent (updateProgress d r)) = percents (sent r) @ [20 * int (completedSteps r + 1)]"
proof -
  show "completedSteps (updateProgress d r) = completedSteps r + 1"
    by (simp add: updateProgress_def Let_def)
  have "sent (updateProgress d r)
      = sent r @ [ProgressEta (20 * int (completedSteps r + 1))
           (js_round ((of_nat totalSteps - of_nat (completedSteps r + 1)) * 2)) d]"
    by (simp only: updateProgress_def Let_def step_percent) simp
  then show "percents (sent (updateProgress d r))
      = percents (sent r) @ [20 * int (completedSteps r + 1)]"
    by (simp only: percents_append percents_single percent_def) simp
qed

lemma percents_foldl_perform:
  "percents (sent (foldl perform r acts)) = percents (sent r) @ trace (completedSteps r) acts"
proof (induction acts arbitrary: r)
  case Nil
  then show ?case by simp
next
  case (Cons a acts)
  show ?case
  proof (cases a)
    case (Push l)
    then show ?thesis by (simp add: Cons.IH)
  next
    case (Send ev)
    then show ?thesis by (simp add: Cons.IH percents_single)
  next
    case (UpdateProgress d)
    then show ?thesis by (simp add: Cons.IH perform_update del: of_nat_add of_nat_Suc)
  qed
qed

lemma updates_simps [simp]:
  "updates [] = 0" "updates (Push l # acts) = updates acts"
  "updates (Send ev # acts) = updates acts"
  "updates (UpdateProgress d # acts) = Suc (updates acts)"
  "updates (xs @ ys) = updates xs + updates ys"
  by (simp_all add: updates_def)

lemma trace_append: "trace c (xs @ ys) = trace c xs @ trace (c + updates xs) ys"
proof (induction xs arbitrary: c)
  case Nil
  then show ?case by simp
next
  case (Cons a xs)
  then show ?case by (cases a) simp_all
qed

lemma trace_quiet:
  "\<forall>a \<in> set acts. \<not> publishes a \<Longrightarrow>
     trace c acts = map (\<lambda>k. 20 * int k) [Suc c ..< Suc (c + updates acts)]"
proof (induction acts arbitrary: c)
  case Nil
  then show ?case by simp
next
  case (Cons a acts)
  show ?case
  proof (cases a)
    case (Push l)
    with Cons show ?thesis by simp
  next
    case (Send ev)
    with Cons.prems have "percent ev = None" by (simp add: publishes_def)
    with Send Cons show ?thesis by simp
  next
    case (UpdateProgress d)
    with Cons.prems have "trace (Suc c) acts
        = map (\<lambda>k. 20 * int k) [Suc (Suc c) ..< Suc (Suc c + updates acts)]"
      by (intro Cons.IH) simp
    moreover have "[Suc c ..< Suc (c + Suc (updates acts))]
        = Suc c # [Suc (Suc c) ..< Suc (Suc c + updates acts)]"
      by (subst upt_rec) simp
    ultimately show ?thesis using UpdateProgress by (simp del: of_nat_Suc upt_Suc)
  qed
qed

lemma steady_append_update:
  "steady lo c (xs @ UpdateProgress d # ys)
     = (steady lo c xs \<and> steady (20 * int (c + updates xs + 1)) (c + updates xs + 1) ys)"
proof (induction xs arbitrary: lo c)
  case Nil
  then show ?case by simp
next
  case (Cons a xs)
  then show ?case by (cases a) (simp_all split: option.splits)
qed

lemma steady_prefix: "steady lo c (xs @ ys) \<Longrightarrow> steady lo c xs"
proof (induction xs arbitrary: lo c)
  case Nil
  then show ?case by simp
next
  case (Cons a xs)
  then show ?case by (cases a) (auto split: option.splits)
qed

lemma steady_pushes [simp]: "steady lo c (map Push ls @ ys) = steady lo c ys"
  by (induction ls) simp_all

lemma steady_sorted:
  "steady lo c xs \<Longrightarrow> lo \<le> 20 * int (c + 1) \<Longrightarrow>
     sorted (lo # trace c xs) \<and> (\<forall>p \<in> set (trace c xs). p \<le> 20 * int (c + updates xs + 1))"
proof (induction xs arbitrary: lo c)
  case Nil
  then show ?case by simp
next
  case (Cons a xs)
  show ?case
  proof (cases a)
    case (Push l)
    with Cons show ?thesis by simp
  next
    case (Send ev)
    show ?thesis
    proof (cases "percent ev")
      case None
      with Send Cons show ?thesis by simp
    next
      case (Some p)
      with Send Cons.prems have p: "lo \<le> p" "p \<le> 20 * int (c + 1)" "steady p c xs"
        by simp_all
      from Cons.IH [OF p(3) p(2)]
      have "sorted (p # trace c xs)" "\<forall>q \<in> set (trace c xs). q \<le> 20 * int (c + updates xs + 1)"
        by simp_all
      with p Send Some show ?thesis by auto
    qed
  next
    case (UpdateProgress d)
    with Cons.prems have s: "steady (20 * int (c + 1)) (c + 1) xs" by simp
    have "20 * int (c + 1) \<le> 20 * int (c + 1 + 1)" by simp
    from Cons.IH [OF s this]
    have "sorted (20 * int (c + 1) # trace (c + 1) xs)"
      "\<forall>q \<in> set (trace (c + 1) xs). q \<le> 20 * int (c + 1 + updates xs + 1)"
      by simp_all
    with Cons.prems(2) UpdateProgress show ?thesis by (auto simp del: of_nat_Suc of_nat_add)
  qed
qed

lemma steady_counts:
  "sorted (lo # map f ks) \<Longrightarrow> \<forall>k \<in> set ks. f k \<le> 20 * int (c + 1) \<Longrightarrow>
     steady lo c (map (\<lambda>k. Send (ProgressCount (f k) (a k) (b k))) ks @ UpdateProgress d # ys)
       = steady (20 * int (c + 1)) (c + 1) ys"
proof (induction ks arbitrary: lo)
  case Nil
  then show ?case by simp
next
  case (Cons k ks)
  then show ?case by (simp add: percent_def)
qed

lemma js_round_mono: "x \<le> y \<Longrightarrow> js_round x \<le> js_round y"
  by (simp add: js_round_def floor_mono)

lemma count_percent_bounds:
  assumes "i < n"
  shows "40 \<le> count_percent n i" "count_percent n i \<le> 60"
proof -
  have "(0::rat) \<le> (of_nat (i + 1) / of_nat n) * 20" by simp
  from js_round_mono [OF this] show "40 \<le> count_percent n i"
    by (simp add: count_percent_def)
  from assms have "(of_nat (i + 1) / of_nat n :: rat) \<le> 1" by (simp add: divide_le_eq_1)
  then have "(of_nat (i + 1) / of_nat n) * 20 \<le> 1 * (20 :: rat)"
    by (rule mult_right_mono) simp
  then have "(of_nat (i + 1) / of_nat n) * 20 \<le> (20 :: rat)" by (simp only: mult_1)
  from js_round_mono [OF this] show "count_percent n i \<le> 60"
    by (simp add: count_percent_def)
qed

lemma count_percent_mono: "i \<le> j \<Longrightarrow> count_percent n i \<le> count_percent n j"
proof -
  assume "i \<le> j"
  then have "(of_nat (i + 1) / of_nat n :: rat) \<le> of_nat (j + 1) / of_nat n"
    by (intro divide_right_mono) simp_all
  then have "(of_nat (i + 1) / of_nat n) * 20 \<le> (of_nat (j + 1) / of_nat n) * (20 :: rat)"
    by (rule mult_right_mono) simp
  from js_round_mono [OF this] show ?thesis by (simp add: count_percent_def)
qed

lemma sorted_count_percents: "sorted (40 # map (count_percent n) [0 ..< n])"
proof -
  have "sorted (map (count_percent n) [0 ..< n])"
    by (auto simp: sorted_map sorted_wrt_iff_nth_less count_percent_mono)
  then show ?thesis using count_percent_bounds(1) by auto
qed

lemma collect_step_unfold:
  "collect_step pages (g, acts) i
     = (g\<lparr>marketplaceIDs := marketplaceIDs g
            @ (case pages i (releaseIDs g ! i) of None \<Rightarrow> [] | Some ids \<Rightarrow> ids)\<rparr>,
        acts @ [Send (ProgressCount (count_percent (length (releaseIDs g)) i) (i + 1)
                  (length (releaseIDs g)))])"
  by (simp add: collect_step_def count_percent_def Let_def)

lemma collect_fold:
  "snd (foldl (collect_step pages) (g, acts) ks)
     = acts @ map (\<lambda>i. Send (ProgressCount (count_percent (length (releaseIDs g)) i) (i + 1)
                  (length (releaseIDs g)))) ks"
proof (induction ks arbitrary: g acts)
  case Nil
  then show ?case by simp
next
  case (Cons k ks)
  show ?case by (simp add: collect_step_unfold Cons.IH)
qed

lemma collect_actions:
  "collectMarketplaceIDs pages g = (g', acts) \<Longrightarrow>
     acts = map (\<lambda>i. Send (ProgressCount (count_percent (length (releaseIDs g)) i) (i + 1)
                  (length (releaseIDs g)))) [0 ..< length (releaseIDs g)]"
  using collect_fold [of pages g "[]" "[0 ..< length (releaseIDs g)]"]
  by (simp add: collectMarketplaceIDs_def)

lemma steady_counts_60:
  "steady 40 (Suc (Suc 0))
     (map (\<lambda>i. Send (ProgressCount (count_percent n i) (a i) (b i))) [0 ..< n]
        @ UpdateProgress d # ys)
   = steady 60 (Suc (Suc (Suc 0))) ys"
proof -
  have "\<forall>k \<in> set [0 ..< n]. count_percent n k \<le> 20 * int (Suc (Suc 0) + 1)"
    using count_percent_bounds(2) by simp
  from steady_counts [OF sorted_count_percents this, of a b d ys] show ?thesis by simp
qed

lemma steady_pushes_only [simp]: "steady lo c (map Push ls) = True"
  using steady_pushes [of lo c ls "[]"] by simp

lemma discogsTasks_shape:
  assumes "discogsTasks e g = Some (gd, dacts, dok)"
  shows "\<exists>a1 rest. dacts = Send (Message ''Fetching wantlist'') # a1
            @ UpdateProgress ''Fetched wantlist'' # Send (Message ''Collecting release IDs'') # rest
          \<and> (a1 = [] \<or> a1 = [Send (Progress 20 ''Fetched wantlist'')])
          \<and> (rest = [] \<or> (\<exists>n a b ls fin.
                rest = Send (Progress 40 ''Collected release IDs'')
                  # UpdateProgress ''Collected release IDs''
                  # Send (Message ''Collecting marketplace IDs'')
                  # map (\<lambda>i. Send (ProgressCount (count_percent n i) (a i) (b i))) [0 ..< n]
                  @ UpdateProgress ''Collected marketplace IDs''
                  # Send (Message ''Fetching marketplace listing data'')
                  # map Push ls @ fin
                \<and> (fin = [] \<or> fin = [UpdateProgress ''Fetched marketplace data''])))"
proof -
  obtain g1 a1 where w: "fetchWantlist (want_response e) g = (g1, a1)" by force
  then have a1: "a1 = [] \<or> a1 = [Send (Progress 20 ''Fetched wantlist'')]"
    by (auto simp: fetchWantlist_def split: option.splits)
  show ?thesis
  proof (cases "collectReleaseIDs g1")
    case (Inl err)
    have "discogsTasks e g = Some (g1, Send (Message ''Fetching wantlist'') # a1
            @ UpdateProgress ''Fetched wantlist'' # Send (Message ''Collecting release IDs'') # [],
            False)"
      by (simp add: discogsTasks_def w Inl)
    with assms have "dacts = Send (Message ''Fetching wantlist'') # a1
            @ UpdateProgress ''Fetched wantlist'' # Send (Message ''Collecting release IDs'') # []"
      by simp
    with a1 show ?thesis by blast
  next
    case (Inr p)
    obtain g2 a2 where p: "p = (g2, a2)" by force
    with Inr have a2: "a2 = [Send (Progress 40 ''Collected release IDs'')]"
      by (auto simp: collectReleaseIDs_def split: option.splits)
    obtain g3 a3 where c: "collectMarketplaceIDs (sale_page e) g2 = (g3, a3)" by force
    note a3 = collect_actions [OF c]
    have some: "fetchMarketplaceListingData (listing_remote e) (marketplaceIDs g3) \<noteq> None"
    proof
      assume "fetchMarketplaceListingData (listing_remote e) (marketplaceIDs g3) = None"
      then have "discogsTasks e g = None"
        by (simp add: discogsTasks_def w Inr p c)
      with assms show False by simp
    qed
    then obtain fe fs where
      f: "fetchMarketplaceListingData (listing_remote e) (marketplaceIDs g3) = Some (fe, fs)"
      by auto
    let ?fin = "case fe of Completed \<Rightarrow> [UpdateProgress ''Fetched marketplace data'']
                | ProbeFailed err fx \<Rightarrow> []"
    have "discogsTasks e g = Some (g3, Send (Message ''Fetching wantlist'') # a1
            @ UpdateProgress ''Fetched wantlist'' # Send (Message ''Collecting release IDs'')
            # (Send (Progress 40 ''Collected release IDs'')
                  # UpdateProgress ''Collected release IDs''
                  # Send (Message ''Collecting marketplace IDs'')
                  # a3
                  @ UpdateProgress ''Collected marketplace IDs''
                  # Send (Message ''Fetching marketplace listing data'')
                  # map Push (pushed fs) @ ?fin),
            (case fe of Completed \<Rightarrow> True | ProbeFailed err fx \<Rightarrow> False))"
      by (cases fe) (simp_all add: discogsTasks_def w Inr p c f a2)
    with assms have d: "dacts = Send (Message ''Fetching wantlist'') # a1
            @ UpdateProgress ''Fetched wantlist'' # Send (Message ''Collecting release IDs'')
            # (Send (Progress 40 ''Collected release IDs'')
                  # UpdateProgress ''Collected release IDs''
                  # Send (Message ''Collecting marketplace IDs'')
                  # a3
                  @ UpdateProgress ''Collected marketplace IDs''
                  # Send (Message ''Fetching marketplace listing data'')
                  # map Push (pushed fs) @ ?fin)"
      by simp
    have fin: "?fin = [] \<or> ?fin = [UpdateProgress ''Fetched marketplace data'']"
      by (cases fe) simp_all
    show ?thesis
      apply (rule exI [of _ a1])
      apply (rule exI [of _ "Send (Progress 40 ''Collected release IDs'')
                  # UpdateProgress ''Collected release IDs''
                  # Send (Message ''Collecting marketplace IDs'')
                  # a3
                  @ UpdateProgress ''Collected marketplace IDs''
                  # Send (Message ''Fetching marketplace listing data'')
                  # map Push (pushed fs) @ ?fin"])
      apply (intro conjI)
        apply (rule d)
       apply (rule a1)
      apply (rule disjI2)
      apply (rule exI [of _ "length (releaseIDs g2)"])
      apply (rule exI [of _ "\<lambda>i. i + 1"])
      apply (rule exI [of _ "\<lambda>i. length (releaseIDs g2)"])
      apply (rule exI [of _ "pushed fs"])
      apply (rule exI [of _ ?fin])
      apply (rule conjI)
       apply (simp only: a3)
      apply (rule fin)
      done
  qed
qed

lemma discogsTasks_steady:
  assumes "discogsTasks e g = Some (gd, dacts, dok)"
  shows "steady 0 0 dacts"
proof -
  from discogsTasks_shape [OF assms] obtain a1 rest where
    d: "dacts = Send (Message ''Fetching wantlist'') # a1
            @ UpdateProgress ''Fetched wantlist'' # Send (Message ''Collecting release IDs'') # rest"
    and a1: "a1 = [] \<or> a1 = [Send (Progress 20 ''Fetched wantlist'')]"
    and rest: "rest = [] \<or> (\<exists>n a b ls fin.
                rest = Send (Progress 40 ''Collected release IDs'')
                  # UpdateProgress ''Collected release IDs''
                  # Send (Message ''Collecting marketplace IDs'')
                  # map (\<lambda>i. Send (ProgressCount (count_percent n i) (a i) (b i))) [0 ..< n]
                  @ UpdateProgress ''Collected marketplace IDs''
                  # Send (Message ''Fetching marketplace listing data'')
                  # map Push ls @ fin
                \<and> (fin = [] \<or> fin = [UpdateProgress ''Fetched marketplace data'']))"
    by blast
  have r: "steady 20 (Suc 0) rest"
  proof (cases "rest = []")
    case True
    then show ?thesis by simp
  next
    case False
    with rest obtain n a b ls fin where
      rest': "rest = Send (Progress 40 ''Collected release IDs'')
                  # UpdateProgress ''Collected release IDs''
                  # Send (Message ''Collecting marketplace IDs'')
                  # map (\<lambda>i. Send (ProgressCount (count_percent n i) (a i) (b i))) [0 ..< n]
                  @ UpdateProgress ''Collected marketplace IDs''
                  # Send (Message ''Fetching marketplace listing data'')
                  # map Push ls @ fin"
      and fin: "fin = [] \<or> fin = [UpdateProgress ''Fetched marketplace data'']"
      by blast
    have "steady 60 (Suc (Suc (Suc 0))) (Send (Message ''Fetching marketplace listing data'')
                  # map Push ls @ fin)"
      using fin by (auto simp: percent_def)
    then have "steady 40 (Suc (Suc 0))
       (map (\<lambda>i. Send (ProgressCount (count_percent n i) (a i) (b i))) [0 ..< n]
                  @ UpdateProgress ''Collected marketplace IDs''
                  # Send (Message ''Fetching marketplace listing data'')
                  # map Push ls @ fin)"
      by (simp only: steady_counts_60)
    then show ?thesis unfolding rest' by (simp add: percent_def)
  qed
  from a1 show ?thesis
  proof
    assume "a1 = []"
    with d r show ?thesis by (simp add: percent_def)
  next
    assume "a1 = [Send (Progress 20 ''Fetched wantlist'')]"
    with d r show ?thesis by (simp add: percent_def)
  qed
qed

lemma main_events:
  assumes "checkForEnvironmentVariables e" "main e g = Some (r, g', evs)"
    and "discogsTasks e g = Some (gd, dacts, dok)" "bandcampTasks e = (bacts, bok)"
  shows "evs = (if dok \<or> bok
                then sent (foldl perform
                       \<lparr>accumulator = listingData gd, completedSteps = 0, sent = []\<rparr>
                       (interleave (schedule e) dacts bacts @ closing_actions))
                else sent (foldl perform
                       \<lparr>accumulator = listingData gd, completedSteps = 0, sent = []\<rparr>
                       (interleave (schedule e) dacts bacts))
                     @ [Message ''Both APIs failed.''])"
proof (cases "dok \<or> bok")
  case True
  with assms show ?thesis
    by (simp add: main_def Let_def closing_actions_def)
next
  case False
  with assms show ?thesis
    by (simp add: main_def Let_def)
qed

lemma trace_closing:
  "trace c closing_actions = [20 * int (c + 1), 20 * int (c + 2), 20 * int (c + 3)]"
  by (simp add: closing_actions_def percent_def numeral_2_eq_2 numeral_3_eq_3)

lemma closing_quiet: "\<forall>a \<in> set closing_actions. \<not> publishes a"
  by (simp add: closing_actions_def publishes_def percent_def)

lemma main_percents:
  assumes "checkForEnvironmentVariables e" "main e g = Some (r, g', evs)"
    and "discogsTasks e g = Some (gd, dacts, dok)" "bandcampTasks e = (bacts, bok)"
  shows "percents evs = trace 0 (interleave (schedule e) dacts bacts
                                  @ (if dok \<or> bok then closing_actions else []))"
proof (cases "dok \<or> bok")
  case True
  with main_events [OF assms] show ?thesis
    by (simp add: percents_foldl_perform del: foldl_append)
next
  case False
  with main_events [OF assms] show ?thesis
    by (simp add: percents_foldl_perform percents_single percent_def del: foldl_append)
qed

lemma sorted_progress:
  assumes "steady 0 0 (pre @ post)" "\<forall>a \<in> set rest. \<not> publishes a"
  shows "sorted (trace 0 (pre @ rest))"
proof -
  from assms(1) have "steady 0 0 pre" by (rule steady_prefix)
  from steady_sorted [OF this]
  have s: "sorted (trace 0 pre)" and b: "\<forall>p \<in> set (trace 0 pre). p \<le> 20 * int (updates pre + 1)"
    by simp_all
  have t: "trace 0 (pre @ rest)
      = trace 0 pre @ map (\<lambda>k. 20 * int k) [Suc (updates pre) ..< Suc (updates pre + updates rest)]"
    by (simp add: trace_append trace_quiet [OF assms(2)])
  have "sorted (map (\<lambda>k. 20 * int k) [Suc (updates pre) ..< Suc (updates pre + updates rest)])"
    by (simp add: sorted_map sorted_wrt_iff_nth_less del: upt_Suc)
  moreover have "p \<le> q" if "p \<in> set (trace 0 pre)"
    "q \<in> set (map (\<lambda>k. 20 * int k) [Suc (updates pre) ..< Suc (updates pre + updates rest)])"
    for p q
  proof -
    from that(2) obtain k where "q = 20 * int k" "Suc (updates pre) \<le> k"
      by (auto simp del: upt_Suc)
    moreover from b that(1) have "p \<le> 20 * int (updates pre + 1)" by blast
    ultimately show ?thesis by simp
  qed
  ultimately show ?thesis unfolding t using s by (simp add: sorted_append del: upt_Suc)
qed

lemma set_interleave: "set (interleave sch xs ys) = set xs \<union> set ys"
  by (induction sch xs ys rule: interleave.induct) auto

lemma step_percents_append [simp]:
  "step_percents (xs @ ys) = step_percents xs @ step_percents ys"
  by (simp add: step_percents_def List.map_filter_def)

lemma step_percents_foldl_perform:
  "\<forall>a \<in> set acts. plain a \<Longrightarrow>
     step_percents (sent (foldl perform r acts))
       = step_percents (sent r)
         @ map (\<lambda>k. 20 * int k) [Suc (completedSteps r) ..< Suc (completedSteps r + updates acts)]"
proof (induction acts arbitrary: r)
  case Nil
  then show ?case by simp
next
  case (Cons a acts)
  then have IH: "step_percents (sent (foldl perform r' acts))
       = step_percents (sent r')
         @ map (\<lambda>k. 20 * int k) [Suc (completedSteps r') ..< Suc (completedSteps r' + updates acts)]"
    for r' by simp
  show ?case
  proof (cases a)
    case (Push l)
    then show ?thesis by (simp add: IH del: upt_Suc)
  next
    case (Send ev)
    with Cons.prems have "step_percents [ev] = []"
      by (cases ev) (simp_all add: plain_def step_percents_def List.map_filter_simps)
    with Send show ?thesis by (simp add: IH del: upt_Suc)
  next
    case (UpdateProgress d)
    have s: "sent (updateProgress d r)
      = sent r @ [ProgressEta (20 * int (completedSteps r + 1))
           (js_round ((of_nat totalSteps - of_nat (completedSteps r + 1)) * 2)) d]"
      by (simp only: updateProgress_def Let_def step_percent) simp
    have "step_percents (sent (updateProgress d r))
        = step_percents (sent r) @ [20 * int (Suc (completedSteps r))]"
      unfolding s step_percents_append
      by (simp add: step_percents_def List.map_filter_simps del: of_nat_Suc)
    moreover have "[Suc (completedSteps r) ..< Suc (completedSteps r + Suc (updates acts))]
        = Suc (completedSteps r) # [Suc (Suc (completedSteps r)) ..<
            Suc (Suc (completedSteps r) + updates acts)]"
      by (subst upt_rec) simp
    ultimately show ?thesis using UpdateProgress
      by (simp add: IH perform_update(1) del: upt_Suc of_nat_Suc)
  qed
qed

lemma plain_simps [simp]:
  "plain (Push l)" "plain (UpdateProgress d)" "plain (Send (Message m))"
  "plain (Send (Progress p m))" "plain (Send (ProgressCount p a b))"
  by (simp_all add: plain_def)

lemma step_percents_Nil [simp]: "step_percents [] = []"
  by (simp add: step_percents_def List.map_filter_simps)

lemma step_percents_Message [simp]: "step_percents [Message m] = []"
  by (simp add: step_percents_def List.map_filter_simps)

lemma discogsTasks_plain:
  assumes "discogsTasks e g = Some (gd, dacts, dok)"
  shows "\<forall>a \<in> set dacts. plain a"
proof -
  from discogsTasks_shape [OF assms] obtain a1 rest where
    d: "dacts = Send (Message ''Fetching wantlist'') # a1
            @ UpdateProgress ''Fetched wantlist'' # Send (Message ''Collecting release IDs'') # rest"
    and a1: "a1 = [] \<or> a1 = [Send (Progress 20 ''Fetched wantlist'')]"
    and rest: "rest = [] \<or> (\<exists>n a b ls fin.
                rest = Send (Progress 40 ''Collected release IDs'')
                  # UpdateProgress ''Collected release IDs''
                  # Send (Message ''Collecting marketplace IDs'')
                  # map (\<lambda>i. Send (ProgressCount (count_percent n i) (a i) (b i))) [0 ..< n]
                  @ UpdateProgress ''Collected marketplace IDs''
                  # Send (Message ''Fetching marketplace listing data'')
                  # map Push ls @ fin
                \<and> (fin = [] \<or> fin = [UpdateProgress ''Fetched marketplace data'']))"
    by blast
  from a1 have p1: "\<forall>a \<in> set a1. plain a" by auto
  from rest have p2: "\<forall>a \<in> set rest. plain a" by (auto simp del: upt_Suc)
  from p1 p2 show ?thesis unfolding d by (simp add: ball_Un)
qed

lemma bandcampTasks_plain:
  "bandcampTasks e = (bacts, bok) \<Longrightarrow> \<forall>a \<in> set bacts. plain a"
  by (auto simp: bandcampTasks_def split: option.splits)

lemma closing_plain: "\<forall>a \<in> set closing_actions. plain a"
  by (simp add: closing_actions_def)

lemma main_step_percents:
  assumes "checkForEnvironmentVariables e" "main e g = Some (r, g', evs)"
    and "discogsTasks e g = Some (gd, dacts, dok)" "bandcampTasks e = (bacts, bok)"
  shows "\<exists>m. step_percents evs = map (\<lambda>k. 20 * int k) [Suc 0 ..< Suc m]"
proof -
  let ?X = "interleave (schedule e) dacts bacts"
  have X: "\<forall>a \<in> set ?X. plain a"
    using discogsTasks_plain [OF assms(3)] bandcampTasks_plain [OF assms(4)]
    by (simp add: set_interleave ball_Un)
  show ?thesis
  proof (cases "dok \<or> bok")
    case True
    from X closing_plain have "\<forall>a \<in> set (?X @ closing_actions). plain a" by (simp add: ball_Un)
    from step_percents_foldl_perform [OF this,
        of "\<lparr>accumulator = listingData gd, completedSteps = 0, sent = []\<rparr>"]
    have "step_percents (sent (foldl perform
        \<lparr>accumulator = listingData gd, completedSteps = 0, sent = []\<rparr> (?X @ closing_actions)))
        = map (\<lambda>k. 20 * int k) [Suc 0 ..< Suc (updates (?X @ closing_actions))]"
      by (simp del: upt_Suc foldl_append)
    moreover from main_events [OF assms] True have "evs = sent (foldl perform
        \<lparr>accumulator = listingData gd, completedSteps = 0, sent = []\<rparr> (?X @ closing_actions))"
      by simp
    ultimately show ?thesis by blast
  next
    case False
    from step_percents_foldl_perform [OF X,
        of "\<lparr>accumulator = listingData gd, completedSteps = 0, sent = []\<rparr>"]
    have "step_percents (sent (foldl perform
        \<lparr>accumulator = listingData gd, completedSteps = 0, sent = []\<rparr> ?X))
        = map (\<lambda>k. 20 * int k) [Suc 0 ..< Suc (updates ?X)]"
      by (simp del: upt_Suc)
    moreover from main_events [OF assms] False have "evs = sent (foldl perform
        \<lparr>accumulator = listingData gd, completedSteps = 0, sent = []\<rparr> ?X)
        @ [Message ''Both APIs failed.'']"
      by simp
    ultimately have "step_percents evs = map (\<lambda>k. 20 * int k) [Suc 0 ..< Suc (updates ?X)]"
      by (simp del: upt_Suc)
    then show ?thesis by blast
  qed
qed

lemma strictly_increasing_steps:
  "sorted_wrt (<) (map (\<lambda>k. 20 * int k) [Suc 0 ..< Suc m])"
  by (simp add: sorted_wrt_map sorted_wrt_iff_nth_less del: upt_Suc)

lemma fetch_nothing: "fetchMarketplaceListingData remote [] = Some (Completed, fetch_start)"
  unfolding fetchMarketplaceListingData_def
  by (subst fetchLoop.simps) (simp add: fetch_start_def)

lemma discogs_env_overtaken:
  "discogsTasks env_overtaken initial_globals
     = Some (\<lparr>releaseIDs = [''r1'', ''r2'', ''r3'', ''r4''], marketplaceIDs = [],
              listingData = [], wantList = Some [''r1'', ''r2'', ''r3'', ''r4''],
              filteredListings = [], uniqueListings = []\<rparr>,
             [Send (Message ''Fetching wantlist''), Send (Progress 20 ''Fetched wantlist''),
              UpdateProgress ''Fetched wantlist'', Send (Message ''Collecting release IDs''),
              Send (Progress 40 ''Collected release IDs''),
              UpdateProgress ''Collected release IDs'',
              Send (Message ''Collecting marketplace IDs''),
              Send (ProgressCount 45 1 4), Send (ProgressCount 50 2 4),
              Send (ProgressCount 55 3 4), Send (ProgressCount 60 4 4),
              UpdateProgress ''Collected marketplace IDs'',
              Send (Message ''Fetching marketplace listing data''),
              UpdateProgress ''Fetched marketplace data''],
             True)"
  by (simp add: stage_simps env_simps initial_globals_def fetch_nothing fetch_start_def)

section \<open>Merge and rank: the claims\<close>



text \<open>
  Claim C10. The names of the output of \<open>removeDuplicates\<close> are the names of the input in
  the order of their first occurrence, so a record that replaces a dearer one takes over
  its position; and each kept record is the first encountered among the cheapest of its
  name: every earlier record of that name is strictly dearer, every later one is at least
  as dear, so of two records with equal name and price the later one is not kept.
\<close>

theorem removeDuplicates_first_occurrence_order:
  "map name (removeDuplicates xs) = first_occurrences (map name xs)
   \<and> (\<forall>a \<in> set (removeDuplicates xs). first_cheapest a xs)"
  using names_removeDuplicates first_cheapest_removeDuplicates by blast

text \<open>
  Record A at 3 replaces A at 5 in the first position, in front of B, and the later A at
  3 is discarded.
\<close>

theorem removeDuplicates_first_occurrence_order_witness:
  "removeDuplicates [sample ''A'' 5 ''/1'', sample ''B'' 3 ''/2'', sample ''A'' 3 ''/3'',
                     sample ''A'' 3 ''/4'']
     = [sample ''A'' 3 ''/3'', sample ''B'' 3 ''/2'']
   \<and> map name (removeDuplicates [sample ''A'' 5 ''/1'', sample ''B'' 3 ''/2'',
                     sample ''A'' 3 ''/3'', sample ''A'' 3 ''/4'']) = [''A'', ''B'']
   \<and> price (sample ''A'' 3 ''/3'') < price (sample ''A'' 5 ''/1'')
   \<and> price (sample ''A'' 3 ''/3'') \<le> price (sample ''A'' 3 ''/4'')"
proof -
  let ?xs = "[sample ''A'' 5 ''/1'', sample ''B'' 3 ''/2'', sample ''A'' 3 ''/3'',
              sample ''A'' 3 ''/4'']"
  have r: "removeDuplicates ?xs = [sample ''A'' 3 ''/3'', sample ''B'' 3 ''/2'']"
    by (simp add: removeDuplicates_def dedupe_step_def sample_def)
  have "first_occurrences (map name ?xs) = [''A'', ''B'']"
    by (simp add: first_occurrences_def sample_def)
  with removeDuplicates_first_occurrence_order [of ?xs]
  have n: "map name (removeDuplicates ?xs) = [''A'', ''B'']" by simp
  from r have "sample ''A'' 3 ''/3'' \<in> set (removeDuplicates ?xs)" by simp
  with removeDuplicates_first_occurrence_order [of ?xs]
  have "first_cheapest (sample ''A'' 3 ''/3'') ?xs" by blast
  then have "price (sample ''A'' 3 ''/3'') < price (sample ''A'' 5 ''/1'')
      \<and> price (sample ''A'' 3 ''/3'') \<le> price (sample ''A'' 3 ''/4'')"
    by (simp add: first_cheapest_def sample_def)
  with r n show ?thesis by simp
qed




section \<open>The retrying fetcher: the claim\<close>

text \<open>
  Claim C5. With \<open>retries = 3\<close>: when the first two attempts fail and the third answers
  with a 2xx status, \<open>fetchWithRetry\<close> returns that response after exactly the three
  calls, with a wait of \<open>delay\<close> between consecutive calls; when all three attempts fail
  it throws the error of the third attempt after exactly the three calls and the same two
  waits; a response whose status is not 2xx is a failed attempt, as a rejected
  \<open>fetch\<close> is.
\<close>

theorem fetchWithRetry_three_attempts:
  "(failed (remote 0) \<and> failed (remote 1) \<and> remote 2 = Responded r \<and> ok r \<longrightarrow>
      fetchWithRetry remote 3 delay
        = (Inr (Some r), [Call 0, Wait delay, Call 1, Wait delay, Call 2]))
   \<and> (failed (remote 0) \<and> failed (remote 1) \<and> failed (remote 2) \<longrightarrow>
      fetchWithRetry remote 3 delay
        = (Inl (thrown (remote 2)), [Call 0, Wait delay, Call 1, Wait delay, Call 2]))
   \<and> (\<not> ok r' \<longrightarrow> failed (Responded r') \<and> thrown (Responded r') = HttpError (status r'))
   \<and> failed (Rejected message) \<and> thrown (Rejected message) = FetchRejected message"
proof (intro conjI impI)
  show "fetchWithRetry remote 3 delay
      = (Inr (Some r), [Call 0, Wait delay, Call 1, Wait delay, Call 2])"
    if "failed (remote 0) \<and> failed (remote 1) \<and> remote 2 = Responded r \<and> ok r"
    using that by (intro fetchWithRetry_3_fail_fail_ok) simp_all
  show "fetchWithRetry remote 3 delay
      = (Inl (thrown (remote 2)), [Call 0, Wait delay, Call 1, Wait delay, Call 2])"
    if "failed (remote 0) \<and> failed (remote 1) \<and> failed (remote 2)"
    using that by (intro fetchWithRetry_3_fail_fail_fail) simp_all
  show "failed (Responded r')" if "\<not> ok r'" using that by (simp add: failed_def)
  show "thrown (Responded r') = HttpError (status r')" if "\<not> ok r'"
    using that by (simp add: thrown_def attempt_fetch_def)
  show "failed (Rejected message)" by (simp add: failed_def)
  show "thrown (Rejected message) = FetchRejected message"
    by (simp add: thrown_def attempt_fetch_def)
qed

text \<open>
  A remote that rejects, then answers 503, then answers 200; and one that always answers
  500.
\<close>

theorem fetchWithRetry_three_attempts_witness:
  "failed (flaky_remote 0) \<and> failed (flaky_remote 1)
   \<and> flaky_remote 2 = Responded (plain_response 200) \<and> ok (plain_response 200)
   \<and> fetchWithRetry flaky_remote 3 1000
       = (Inr (Some (plain_response 200)), [Call 0, Wait 1000, Call 1, Wait 1000, Call 2])
   \<and> failed (dead_remote 0) \<and> failed (dead_remote 1) \<and> failed (dead_remote 2)
   \<and> fetchWithRetry dead_remote 3 1000
       = (Inl (HttpError 500), [Call 0, Wait 1000, Call 1, Wait 1000, Call 2])
   \<and> \<not> ok (plain_response 503) \<and> failed (Responded (plain_response 503))"
proof -
  have f: "failed (flaky_remote 0)" "failed (flaky_remote 1)"
    "flaky_remote 2 = Responded (plain_response 200)" "ok (plain_response 200)"
    by (simp_all add: flaky_remote_def failed_def ok_def plain_response_def)
  have d: "failed (dead_remote 0)" "failed (dead_remote 1)" "failed (dead_remote 2)"
    by (simp_all add: dead_remote_def failed_def ok_def plain_response_def)
  have t: "thrown (dead_remote 2) = HttpError 500"
    by (simp add: thrown_def attempt_fetch_def dead_remote_def ok_def plain_response_def)
  have n: "\<not> ok (plain_response 503)" by (simp add: ok_def plain_response_def)
  from fetchWithRetry_three_attempts [of flaky_remote "plain_response 200" 1000] f
  have 1: "fetchWithRetry flaky_remote 3 1000
      = (Inr (Some (plain_response 200)), [Call 0, Wait 1000, Call 1, Wait 1000, Call 2])"
    by blast
  from fetchWithRetry_three_attempts [of dead_remote _ 1000] d t
  have 2: "fetchWithRetry dead_remote 3 1000
      = (Inl (HttpError 500), [Call 0, Wait 1000, Call 1, Wait 1000, Call 2])"
    by simp
  from fetchWithRetry_three_attempts [of _ _ _ "plain_response 503"] n
  have 3: "failed (Responded (plain_response 503))" by blast
  from f d 1 2 n 3 show ?thesis by simp
qed

section \<open>The batch fetcher: the claims\<close>

text \<open>
  Claim C1 as stated fails. With a reported budget of 1 and two identifiers left, the
  wave at cursor 0 probes identifier 101, reads the budget from the probe's headers and
  then fetches the slice of one identifier, which is 101 again: the probe's response is
  not reused, and the wave makes two calls against a remaining budget of one.
\<close>

theorem fetchWave_probe_is_extra_call:
  "fetchWave (steady_remote 1) [''101'', ''102''] 0 0
     = WaveDone \<lparr>wave_cursor = 0, probe_id = Some ''101'', probe_effects = [Call 0],
                 rateLimitRemaining = Some 1, batchSize = Some 1,
                 batch = [(''101'', [Call 0])], cooldown = False\<rparr>
                [sample ''Listing'' 10 ''/sell/item'']
   \<and> wave_calls \<lparr>wave_cursor = 0, probe_id = Some ''101'', probe_effects = [Call 0],
                 rateLimitRemaining = Some 1, batchSize = Some 1,
                 batch = [(''101'', [Call 0])], cooldown = False\<rparr> = 2
   \<and> wave_ids \<lparr>wave_cursor = 0, probe_id = Some ''101'', probe_effects = [Call 0],
                 rateLimitRemaining = Some 1, batchSize = Some 1,
                 batch = [(''101'', [Call 0])], cooldown = False\<rparr> = [''101'']"
  by (simp add: fetch_eval wave_calls_def wave_ids_def)

text \<open>
  Claim C1, amended. In a wave that starts with the cursor \<open>i\<close> inside the list and whose
  probe reports a remaining budget \<open>r \<ge> 0\<close>: \<open>batchSize\<close> is \<open>min r 60\<close>; the batch
  asks for the next \<open>batchSize\<close> identifiers from \<open>i\<close> on, or for all that are left when
  fewer are, so it launches at most \<open>r\<close> and at most 60 requests; the probe asks for the
  identifier at \<open>i\<close>, and so does the first request of a non-empty batch; the probe and
  every request of the batch make between one and three calls each, so the wave makes at
  least one call more than the batch has requests and at most three times as many; and at
  most one listing is pushed per request.
\<close>

theorem fetchWave_batch_bound:
  assumes "0 \<le> i" "i < int (length ids)"
    and "fetchWave remote ids w i = WaveDone wv listings"
    and "rateLimitRemaining wv = Some r" "0 \<le> r"
  shows "batchSize wv = Some (min r 60)
         \<and> wave_ids wv = take (nat (min r 60)) (drop (nat i) ids)
         \<and> length (batch wv) = min (nat (min r 60)) (length ids - nat i)
         \<and> int (length (batch wv)) \<le> r \<and> length (batch wv) \<le> 60
         \<and> probe_id wv = Some (ids ! nat i)
         \<and> (0 < r \<longrightarrow> wave_ids wv \<noteq> [] \<and> hd (wave_ids wv) = ids ! nat i)
         \<and> 1 \<le> calls (probe_effects wv)
         \<and> 1 + length (batch wv) \<le> wave_calls wv
         \<and> wave_calls wv \<le> 3 * (1 + length (batch wv))
         \<and> length listings \<le> length (batch wv)"
proof -
  from fetchWave_done [OF assms(3)] obtain response :: response where
    r: "rateLimitRemaining wv = ratelimit_remaining response"
    and s: "batchSize wv = js_min (ratelimit_remaining response) 60"
    and pid: "probe_id wv = js_index ids i"
    and ids: "wave_ids wv = js_slice ids i (js_add (Some i) (batchSize wv))"
    by blast
  from r assms(4) have "ratelimit_remaining response = Some r" by simp
  with s have size: "batchSize wv = Some (min r 60)" by (simp add: js_min_def)
  from assms(5) have m: "0 \<le> min r 60" by simp
  from ids size js_slice_window [OF assms(1,2) m]
  have w: "wave_ids wv = take (nat (min r 60)) (drop (nat i) ids)" by simp
  have "length (wave_ids wv) = length (batch wv)" by (simp add: wave_ids_def)
  with w have len: "length (batch wv) = min (nat (min r 60)) (length ids - nat i)"
    by (simp add: min.commute)
  from assms(1,2) have some: "drop (nat i) ids \<noteq> []" by simp
  have first: "wave_ids wv \<noteq> [] \<and> hd (wave_ids wv) = ids ! nat i" if "0 < r"
  proof -
    from that have "0 < nat (min r 60)" by simp
    with some w have "wave_ids wv \<noteq> []" by (simp add: take_eq_Nil)
    moreover from \<open>0 < nat (min r 60)\<close> some w have "hd (wave_ids wv) = hd (drop (nat i) ids)"
      by (simp add: hd_take)
    moreover from assms(1,2) have "hd (drop (nat i) ids) = ids ! nat i"
      by (simp add: hd_drop_conv_nth)
    ultimately show ?thesis by simp
  qed
  from len have le: "length (batch wv) \<le> nat (min r 60)" by simp
  from assms(5) have "int (nat (min r 60)) \<le> r" "nat (min r 60) \<le> 60" by simp_all
  with le have b1: "int (length (batch wv)) \<le> r" and b2: "length (batch wv) \<le> 60"
    by linarith+
  note c = wave_calls_bounds [OF assms(3)]
  from pid js_index_inside [OF assms(1,2)] have p: "probe_id wv = Some (ids ! nat i)" by simp
  show ?thesis
  proof (intro conjI impI)
    show "batchSize wv = Some (min r 60)" by (rule size)
    show "wave_ids wv = take (nat (min r 60)) (drop (nat i) ids)" by (rule w)
    show "length (batch wv) = min (nat (min r 60)) (length ids - nat i)" by (rule len)
    show "int (length (batch wv)) \<le> r" by (rule b1)
    show "length (batch wv) \<le> 60" by (rule b2)
    show "probe_id wv = Some (ids ! nat i)" by (rule p)
    show "wave_ids wv \<noteq> []" if "0 < r" using first [OF that] by simp
    show "hd (wave_ids wv) = ids ! nat i" if "0 < r" using first [OF that] by simp
    show "1 \<le> calls (probe_effects wv)" using c by simp
    show "1 + length (batch wv) \<le> wave_calls wv" using c by simp
    show "wave_calls wv \<le> 3 * (1 + length (batch wv))" using c by simp
    show "length listings \<le> length (batch wv)" using c by simp
  qed
qed

text \<open>
  Three identifiers, the cursor at 1, a budget of 5: the batch is the two identifiers
  that are left, and the wave makes three calls.
\<close>

theorem fetchWave_batch_bound_witness:
  "fetchWave (steady_remote 5) [''201'', ''202'', ''203''] 0 1
     = WaveDone \<lparr>wave_cursor = 1, probe_id = Some ''202'', probe_effects = [Call 0],
                 rateLimitRemaining = Some 5, batchSize = Some 5,
                 batch = [(''202'', [Call 0]), (''203'', [Call 0])], cooldown = False\<rparr>
                [sample ''Listing'' 10 ''/sell/item'', sample ''Listing'' 10 ''/sell/item'']
   \<and> wave_ids \<lparr>wave_cursor = 1, probe_id = Some ''202'', probe_effects = [Call 0],
                 rateLimitRemaining = Some 5, batchSize = Some 5,
                 batch = [(''202'', [Call 0]), (''203'', [Call 0])], cooldown = False\<rparr>
       = [''202'', ''203'']
   \<and> wave_calls \<lparr>wave_cursor = 1, probe_id = Some ''202'', probe_effects = [Call 0],
                 rateLimitRemaining = Some 5, batchSize = Some 5,
                 batch = [(''202'', [Call 0]), (''203'', [Call 0])], cooldown = False\<rparr> = 3"
proof -
  let ?wv = "\<lparr>wave_cursor = 1, probe_id = Some ''202'', probe_effects = [Call 0],
                 rateLimitRemaining = Some 5, batchSize = Some 5,
                 batch = [(''202'', [Call 0]), (''203'', [Call 0])], cooldown = False\<rparr>"
  let ?ls = "[sample ''Listing'' 10 ''/sell/item'', sample ''Listing'' 10 ''/sell/item'']"
  have run: "fetchWave (steady_remote 5) [''201'', ''202'', ''203''] 0 1 = WaveDone ?wv ?ls"
    by (simp add: fetch_eval)
  have "(0::int) \<le> 1" "(1::int) < int (length [''201'', ''202'', ''203''])"
    "rateLimitRemaining ?wv = Some 5" "(0::int) \<le> 5"
    by simp_all
  from fetchWave_batch_bound [OF this(1,2) run this(3,4)]
  have "wave_ids ?wv = take (nat (min 5 60)) (drop (nat 1) [''201'', ''202'', ''203''])"
    and "1 + length (batch ?wv) \<le> wave_calls ?wv"
    by blast+
  moreover have "wave_calls ?wv = 3" by (simp add: wave_calls_def)
  ultimately show ?thesis using run by simp
qed

text \<open>
  Claim C2 as stated fails. When every probe reports a remaining budget of 0 the batch is
  empty, the cursor does not move, and after the cooldown the loop probes again: the run
  never returns.
\<close>

theorem fetchMarketplaceListingData_zero_budget_never_returns:
  "fetchMarketplaceListingData (steady_remote 0) [''101''] = None"
proof (cases "fetchMarketplaceListingData (steady_remote 0) [''101'']")
  case None
  then show ?thesis .
next
  case (Some y)
  then have "fetchLoop (steady_remote 0) [''101''] 0 fetch_start = Some y"
    by (simp add: fetchMarketplaceListingData_def)
  from fetchLoop_zero_budget [OF this] show ?thesis by (simp add: fetch_start_def)
qed

text \<open>
  Claim C2, amended. When every probe succeeds and reports a budget that is a
  non-negative integer, and a positive budget is reported again and again, the loop
  returns with the cursor at or beyond the end of the list, and the slices of its waves,
  in order, concatenate to the identifier list: every identifier is in the slice of
  exactly one wave.
\<close>

theorem fetchMarketplaceListingData_partition:
  assumes "\<forall>w. \<exists>r. probe_budget remote w = Some (Some r) \<and> 0 \<le> r"
    and "\<forall>w. \<exists>w' r. w \<le> w' \<and> probe_budget remote w' = Some (Some r) \<and> 0 < r"
  shows "\<exists>s. fetchMarketplaceListingData remote ids = Some (Completed, s)
           \<and> concat (map wave_ids (waves s)) = ids
           \<and> (\<exists>n. cursor s = Some n \<and> int (length ids) \<le> n)"
  using fetchLoop_terminates [OF assms, of fetch_start 0 ids 0]
  by (simp add: fetchMarketplaceListingData_def fetch_start_def)

text \<open>Three identifiers and a steady budget of 2: two waves, of two and of one.\<close>

theorem fetchMarketplaceListingData_partition_witness:
  "probe_budget (steady_remote 2) 0 = Some (Some 2)
   \<and> fetchMarketplaceListingData (steady_remote 2) [''101'', ''102'', ''103'']
     = Some (Completed,
        \<lparr>cursor = Some 4, totalRequestsMade = Some 4,
         pushed = [sample ''Listing'' 10 ''/sell/item'', sample ''Listing'' 10 ''/sell/item'',
                   sample ''Listing'' 10 ''/sell/item''],
         waves = [\<lparr>wave_cursor = 0, probe_id = Some ''101'', probe_effects = [Call 0],
                   rateLimitRemaining = Some 2, batchSize = Some 2,
                   batch = [(''101'', [Call 0]), (''102'', [Call 0])], cooldown = True\<rparr>,
                  \<lparr>wave_cursor = 2, probe_id = Some ''103'', probe_effects = [Call 0],
                   rateLimitRemaining = Some 2, batchSize = Some 2,
                   batch = [(''103'', [Call 0])], cooldown = False\<rparr>]\<rparr>)
   \<and> concat (map wave_ids (waves (snd (the
         (fetchMarketplaceListingData (steady_remote 2) [''101'', ''102'', ''103''])))))
     = [''101'', ''102'', ''103'']"
proof -
  have h1: "\<forall>w. \<exists>r. probe_budget (steady_remote 2) w = Some (Some r) \<and> 0 \<le> r"
    by (simp add: probe_budget_steady)
  have h2: "\<forall>w. \<exists>w' r. w \<le> w' \<and> probe_budget (steady_remote 2) w' = Some (Some r) \<and> 0 < r"
    by (auto simp: probe_budget_steady)
  from fetchMarketplaceListingData_partition [OF h1 h2, of "[''101'', ''102'', ''103'']"]
  obtain s where s: "fetchMarketplaceListingData (steady_remote 2) [''101'', ''102'', ''103'']
      = Some (Completed, s)" "concat (map wave_ids (waves s)) = [''101'', ''102'', ''103'']"
    by blast
  have run: "fetchMarketplaceListingData (steady_remote 2) [''101'', ''102'', ''103'']
     = Some (Completed,
        \<lparr>cursor = Some 4, totalRequestsMade = Some 4,
         pushed = [sample ''Listing'' 10 ''/sell/item'', sample ''Listing'' 10 ''/sell/item'',
                   sample ''Listing'' 10 ''/sell/item''],
         waves = [\<lparr>wave_cursor = 0, probe_id = Some ''101'', probe_effects = [Call 0],
                   rateLimitRemaining = Some 2, batchSize = Some 2,
                   batch = [(''101'', [Call 0]), (''102'', [Call 0])], cooldown = True\<rparr>,
                  \<lparr>wave_cursor = 2, probe_id = Some ''103'', probe_effects = [Call 0],
                   rateLimitRemaining = Some 2, batchSize = Some 2,
                   batch = [(''103'', [Call 0])], cooldown = False\<rparr>]\<rparr>)"
    unfolding fetchMarketplaceListingData_def fetch_start_def
    apply (subst fetchLoop.simps)
    apply (simp add: fetch_eval)
    apply (subst fetchLoop.simps)
    apply (simp add: fetch_eval)
    apply (subst fetchLoop.simps)
    apply simp
    done
  from s show ?thesis unfolding run by (simp add: probe_budget_steady)
qed

section \<open>The storefront adapter: the claim\<close>



section \<open>The pipeline: the claims\<close>







section \<open>The progress events: the claim\<close>




end
